theory Spec2Isabelle
  imports Main "HOL-Library.Word"
begin

section \<open>Handel: the level-partitioned aggregation engine\<close>

text \<open>
  A shallow embedding of the \<^verbatim>\<open>handel\<close> package of \<^verbatim>\<open>src/simul/lib/net.go\<close>:
  the per-level cursor (\<^verbatim>\<open>Level\<close>) and the aggregator (\<^verbatim>\<open>Handel\<close>).

  Conventions.
  \<^item> Go's \<^verbatim>\<open>int\<close> is \<open>int\<close> where the code only compares and assigns it, or adds 1
    to a value that is below the length of a slice (itself an \<^verbatim>\<open>int\<close> of Go): no
    addition of that kind can wrap around. The counter \<^verbatim>\<open>sent\<close> of a level grows with
    every pick and has no such bound: it is a \<open>64 word\<close>, read signed, and
    \<^verbatim>\<open>c.sent += size\<close> wraps around as Go's \<^verbatim>\<open>int\<close> of 64 bits does.
    \<^verbatim>\<open>byte\<close> is \<open>8 word\<close> and \<^verbatim>\<open>int32\<close> is \<open>32 word\<close> read signed, since the code
    converts and compares them.
  \<^item> A panic is the \<open>Inl\<close> of a result: the program does not recover from any of them.
  \<^item> A method with a pointer receiver returns the updated receiver; a struct passed or
    copied by value is a value of the model, so that writes to the copy are lost exactly
    where Go loses them.
  \<^item> Channels and the network are the lists of what was sent on them.
\<close>

subsection \<open>Panics\<close>

datatype panic =
    IndexOutOfRange
  | NilDereference
  | MakeSliceLenOutOfRange
  | CloseOfClosedChannel
  | SendOnClosedChannel
  | BadLevelId
  | TooManySignatures int int int
  | ThisShouldNotHappenAtAll
  | StoreWrong
  | SkipSendingBest int int
  | PanicError string

subsection \<open>Identities and multi-signatures\<close>

type_synonym byte = "8 word"
type_synonym int32 = "32 word"
type_synonym int64 = "64 word"

text \<open>
  Modelled from the spec: \<^verbatim>\<open>Identity\<close> is declared outside \<^verbatim>\<open>src/\<close>; the spec describes
  it as an opaque participant descriptor with a stable integer ID. Only the ID is kept.
\<close>

type_synonym Identity = int32

text \<open>
  Modelled from the spec: \<^verbatim>\<open>MultiSignature\<close> and \<^verbatim>\<open>BitSet\<close> are declared outside
  \<^verbatim>\<open>src/\<close>. The spec: a pair of a contributor bitset and an aggregated signature; the
  bitset is a fixed-capacity set of indices with a cardinality and a capacity. The bitset
  is the list of its bits, the signature its bytes.
\<close>

record MultiSignature =
  BitSet :: "bool list"
  Signature :: "byte list"

definition Cardinality :: "MultiSignature \<Rightarrow> int" where
  "Cardinality m = int (length (filter (\<lambda>b. b) (BitSet m)))"

definition BitLength :: "MultiSignature \<Rightarrow> int" where
  "BitLength m = int (length (BitSet m))"

subsection \<open>Level\<close>

text \<open>The field \<^verbatim>\<open>id\<close> of the source is \<open>id_l\<close> here (\<open>id\<close> is the identity function of HOL).\<close>

record Level =
  id_l :: int
  nodes :: "Identity list"
  started :: bool
  completed :: bool
  finished :: bool
  pos :: int
  sent :: int64
  currentBestSize :: int

definition NewLevel :: "int \<Rightarrow> Identity list \<Rightarrow> panic + Level" where
  "NewLevel i ns =
     (if i \<le> 0 then Inl BadLevelId
      else Inr \<lparr>id_l = i, nodes = ns, started = True, completed = False, finished = False,
                pos = 0, sent = 0, currentBestSize = 0\<rparr>)"

text \<open>
  The loop of \<^verbatim>\<open>PickNextAt\<close>, by the number of iterations left. \<^verbatim>\<open>res[i]\<close> is written for
  \<^verbatim>\<open>i = 0, 1, ...\<close> in turn, so the result grows at its end. \<^verbatim>\<open>c.nodes[c.pos]\<close> panics
  out of range.
\<close>

fun PickNextAt_loop :: "nat \<Rightarrow> Level \<Rightarrow> Identity list \<Rightarrow> panic + (Identity list \<times> Level)" where
  "PickNextAt_loop 0 c res = Inr (res, c)"
| "PickNextAt_loop (Suc k) c res =
     (if 0 \<le> pos c \<and> pos c < int (length (nodes c)) then
        (let x = nodes c ! nat (pos c);
             c1 = c\<lparr>pos := pos c + 1\<rparr>;
             c2 = (if pos c1 \<ge> int (length (nodes c1)) then c1\<lparr>pos := 0\<rparr> else c1)
         in PickNextAt_loop k c2 (res @ [x]))
      else Inl IndexOutOfRange)"

text \<open>
  \<^verbatim>\<open>PickNextAt\<close> returns the peers, the constant \<^verbatim>\<open>true\<close> and the updated receiver.
  \<^verbatim>\<open>c.sent += size\<close> is the addition of 64-bit integers, and the comparison of
  \<^verbatim>\<open>c.sent\<close> with \<^verbatim>\<open>len(c.nodes)\<close> reads it signed.
\<close>

definition PickNextAt :: "Level \<Rightarrow> int \<Rightarrow> panic + (Identity list \<times> bool \<times> Level)" where
  "PickNextAt c count =
     (let size = min count (int (length (nodes c))) in
      if size < 0 then Inl MakeSliceLenOutOfRange
      else
        (case PickNextAt_loop (nat size) c [] of
           Inl e \<Rightarrow> Inl e
         | Inr (res, c1) \<Rightarrow>
             (let c2 = c1\<lparr>sent := sent c1 + word_of_int size\<rparr>;
                  c3 = (if sint (sent c2) \<ge> int (length (nodes c2))
                        then c2\<lparr>finished := True\<rparr> else c2)
              in Inr (res, True, c3))))"

definition updateBestSig :: "Level \<Rightarrow> MultiSignature \<Rightarrow> panic + (bool \<times> Level)" where
  "updateBestSig l sg =
     (if Cardinality sg > int (length (nodes l)) then
        Inl (TooManySignatures (id_l l) (int (length (nodes l))) (Cardinality sg))
      else if currentBestSize l \<ge> Cardinality sg then Inr (False, l)
      else
        (let l' = l\<lparr>currentBestSize := Cardinality sg, finished := False, sent := 0\<rparr>
         in Inr (currentBestSize l' = int (length (nodes l')), l')))"

subsection \<open>What the aggregator holds\<close>

text \<open>
  Modelled from the spec: the \<^verbatim>\<open>signatureStore\<close> interface is implemented outside
  \<^verbatim>\<open>src/\<close>. The spec gives \<^verbatim>\<open>Best(level)\<close> returning the aggregate and an ok flag,
  \<^verbatim>\<open>Combined(k)\<close> returning an aggregate or null, and \<^verbatim>\<open>FullSignature()\<close>. The model
  takes the answers of the store as they are at one moment, with no assumption on
  them: a null pointer is \<open>None\<close>.
\<close>

record signatureStore =
  Best :: "byte \<Rightarrow> MultiSignature option \<times> bool"
  Combined :: "byte \<Rightarrow> MultiSignature option"
  FullSignature :: "MultiSignature option"

record Packet =
  Origin :: int32
  Level :: byte
  MultiSig :: "byte list"

record sigPair =
  origin :: int32
  level :: byte
  ms :: MultiSignature

text \<open>
  Modelled from the spec: \<^verbatim>\<open>Config\<close>, \<^verbatim>\<open>Registry\<close> and the verification pipeline
  (\<^verbatim>\<open>signatureProcessing\<close>) are declared outside \<^verbatim>\<open>src/\<close>. Of the configuration the code
  under \<^verbatim>\<open>src/\<close> reads \<^verbatim>\<open>CandidateCount\<close>, of the registry its \<^verbatim>\<open>Size()\<close>; the pipeline
  is the list of what was pushed on its \<^verbatim>\<open>Incoming()\<close> channel, with the flags set by
  \<^verbatim>\<open>Start()\<close> and \<^verbatim>\<open>Stop()\<close>.
\<close>

record Config =
  CandidateCount :: int

record Registry =
  Size :: int

record signatureProcessing =
  Incoming :: "sigPair list"
  procStarted :: bool
  procStopped :: bool

text \<open>
  Modelled from the spec: the functions \<^verbatim>\<open>log2\<close>, \<^verbatim>\<open>MultiSignature.MarshalBinary\<close> and
  \<^verbatim>\<open>MultiSignature.Unmarshal\<close> are defined outside \<^verbatim>\<open>src/\<close>; they are parameters of
  the model, carried by the aggregator. The two codecs return an error or a value.
\<close>

record Externals =
  log2 :: "int \<Rightarrow> int"
  MarshalBinary :: "MultiSignature \<Rightarrow> string + byte list"
  Unmarshal :: "byte list \<Rightarrow> string + MultiSignature"

text \<open>The output channel: the values sent on it so far, and whether it was closed.\<close>

record chan =
  buf :: "MultiSignature list"
  closed :: bool

definition chan_send :: "chan \<Rightarrow> MultiSignature \<Rightarrow> panic + chan" where
  "chan_send ch v = (if closed ch then Inl SendOnClosedChannel else Inr (ch\<lparr>buf := buf ch @ [v]\<rparr>))"

definition chan_close :: "chan \<Rightarrow> panic + chan" where
  "chan_close ch = (if closed ch then Inl CloseOfClosedChannel else Inr (ch\<lparr>closed := True\<rparr>))"

text \<open>The calls of \<^verbatim>\<open>logf\<close>, one constructor for each call site.\<close>

datatype log_entry =
    LogSending int int "Identity list"
  | LogInvalidPacket string
  | LogReceived int32 byte MultiSignature
  | LogProtocolFinished byte
  | LogPassing byte byte
  | LogNewVerified sigPair
  | LogMarshalError string

text \<open>
  The fields of \<^verbatim>\<open>Handel\<close> that the code under \<^verbatim>\<open>src/\<close> reads or writes. The fields
  \<^verbatim>\<open>c\<close>, \<^verbatim>\<open>id\<close> and \<^verbatim>\<open>done\<close> are \<open>c_h\<close>, \<open>id_h\<close> and \<open>done_h\<close>. \<open>net\<close> is the list of
  the calls of \<^verbatim>\<open>Network.Send\<close>; \<open>ticker\<close> tells whether the ticker runs; \<open>logs\<close> is
  what was logged.
\<close>

record Handel =
  ext :: Externals
  c_h :: Config
  net :: "(Identity list \<times> Packet) list"
  reg :: Registry
  id_h :: int32
  store :: signatureStore
  proc :: signatureProcessing
  currLevel :: byte
  best :: "MultiSignature option"
  out :: chan
  done_h :: bool
  threshold :: int
  ticker :: bool
  levels :: "Level list"
  logs :: "log_entry list"

definition logf :: "Handel \<Rightarrow> log_entry \<Rightarrow> Handel" where
  "logf h e = h\<lparr>logs := logs h @ [e]\<rparr>"

subsection \<open>Sending\<close>

definition sendTo :: "Handel \<Rightarrow> int \<Rightarrow> MultiSignature \<Rightarrow> Identity list \<Rightarrow> Handel" where
  "sendTo h lvl m ids =
     (case MarshalBinary (ext h) m of
        Inl err \<Rightarrow> logf h (LogMarshalError err)
      | Inr buff \<Rightarrow>
          h\<lparr>net := net h @ [(ids, \<lparr>Origin = id_h h, Level = word_of_int lvl, MultiSig = buff\<rparr>)]\<rparr>)"

text \<open>
  \<^verbatim>\<open>sendUpdate\<close> takes the level by value: the cursor that \<^verbatim>\<open>PickNextAt\<close> advances is the
  one of the copy, which is dropped at the return.
\<close>

definition sendUpdate :: "Handel \<Rightarrow> Level \<Rightarrow> int \<Rightarrow> panic + Handel" where
  "sendUpdate h l count =
     (if \<not> started l \<or> finished l then Inr h
      else
        (case Combined (store h) (word_of_int (id_l l) - 1) of
           None \<Rightarrow> Inl ThisShouldNotHappenAtAll
         | Some sp \<Rightarrow>
             (case PickNextAt l count of
                Inl e \<Rightarrow> Inl e
              | Inr (newNodes, ok, l') \<Rightarrow>
                  Inr (sendTo (logf h (LogSending (id_l l') (BitLength sp) newNodes))
                         (id_l l') sp newNodes))))"

text \<open>
  \<^verbatim>\<open>findNextLevel\<close>: the loop, from the value \<open>l\<close> of its variable. Its guard reads
  \<^verbatim>\<open>lvl\<close>, as the source does. The result is the pair of the source, the error being
  \<open>Some\<close> of its message.
\<close>

function findNextLevel_loop :: "Handel \<Rightarrow> int \<Rightarrow> int \<Rightarrow> panic + (int \<times> string option)" where
  "findNextLevel_loop h lvl l =
     (if lvl \<le> int (length (levels h)) then
        (if 0 \<le> l - 1 \<and> l - 1 < int (length (levels h)) then
           (if int (length (nodes (levels h ! nat (l - 1)))) = 0
            then findNextLevel_loop h lvl (l + 1)
            else Inr (l, None))
         else Inl IndexOutOfRange)
      else Inr (0, Some ''no non-empty level found''))"
  by pat_completeness auto
termination
  by (relation "measure (\<lambda>(h, lvl, l). nat (int (length (levels h)) + 1 - l))") auto

declare findNextLevel_loop.simps [simp del]

definition findNextLevel :: "Handel \<Rightarrow> int \<Rightarrow> panic + (int \<times> string option)" where
  "findNextLevel h lvl = findNextLevel_loop h lvl (lvl + 1)"

definition sendBestUpTo :: "Handel \<Rightarrow> int \<Rightarrow> panic + Handel" where
  "sendBestUpTo h lvl =
     (if lvl < 0 \<or> lvl \<ge> int (length (levels h)) then
        Inl (SkipSendingBest lvl (int (length (levels h))))
      else
        (case findNextLevel h lvl of
           Inl e \<Rightarrow> Inl e
         | Inr (levelToSend, Some err) \<Rightarrow> Inl (PanicError err)
         | Inr (levelToSend, None) \<Rightarrow>
             (if 0 \<le> levelToSend - 1 \<and> levelToSend - 1 < int (length (levels h))
              then sendUpdate h (levels h ! nat (levelToSend - 1)) (CandidateCount (c_h h))
              else Inl IndexOutOfRange)))"

definition startNextLevel :: "Handel \<Rightarrow> panic + Handel" where
  "startNextLevel h =
     (if uint (currLevel h) \<ge> int (length (levels h)) then
        Inr (logf h (LogProtocolFinished (currLevel h)))
      else
        (case sendBestUpTo h (uint (currLevel h)) of
           Inl e \<Rightarrow> Inl e
         | Inr h1 \<Rightarrow>
             (let h2 = h1\<lparr>currLevel := currLevel h1 + 1\<rparr>
              in Inr (logf h2 (LogPassing (currLevel h2 - 1) (currLevel h2))))))"

subsection \<open>The periodic update\<close>

fun periodicUpdate_loop :: "Handel \<Rightarrow> Level list \<Rightarrow> panic + Handel" where
  "periodicUpdate_loop h [] = Inr h"
| "periodicUpdate_loop h (lvl # rest) =
     (case sendUpdate h lvl 1 of
        Inl e \<Rightarrow> Inl e
      | Inr h' \<Rightarrow> periodicUpdate_loop h' rest)"

definition periodicUpdate :: "Handel \<Rightarrow> panic + Handel" where
  "periodicUpdate h = periodicUpdate_loop h (levels h)"

subsection \<open>Packets\<close>

text \<open>
  \<^verbatim>\<open>parsePacket\<close> returns the multi-signature or the error. \<^verbatim>\<open>int32(h.reg.Size())\<close> is
  the conversion to 32 bits, and \<^verbatim>\<open>>=\<close> on \<^verbatim>\<open>int32\<close> is signed. The message of the
  second error is kept without the numbers that the source formats into it.
\<close>

definition parsePacket :: "Handel \<Rightarrow> Packet \<Rightarrow> string + MultiSignature" where
  "parsePacket h p =
     (if sint (Origin p) \<ge> sint (word_of_int (Size (reg h)) :: int32) then
        Inl ''packet's origin out of range''
      else
        (let lvl = uint (Level p) in
         if lvl < 1 \<or> lvl > log2 (ext h) (Size (reg h)) then
           Inl ''packet's level out of range''
         else Unmarshal (ext h) (MultiSig p)))"

definition NewPacket :: "Handel \<Rightarrow> Packet \<Rightarrow> Handel" where
  "NewPacket h p =
     (if done_h h then h
      else
        (case parsePacket h p of
           Inl err \<Rightarrow> logf h (LogInvalidPacket err)
         | Inr m \<Rightarrow>
             (let h1 = logf h (LogReceived (Origin p) (Level p) m)
              in h1\<lparr>proc := (proc h1)\<lparr>Incoming := Incoming (proc h1) @
                     [\<lparr>origin = Origin p, level = Level p, ms = m\<rparr>]\<rparr>\<rparr>)))"

subsection \<open>Start and stop\<close>

text \<open>
  \<^verbatim>\<open>Start\<close> spawns the pipeline and the consumer of verified signatures, then starts the
  first level. \<^verbatim>\<open>Stop\<close> stops the ticker and the pipeline, sets \<^verbatim>\<open>done\<close> and closes the
  output channel; closing a closed channel panics in Go.
\<close>

definition Start :: "Handel \<Rightarrow> panic + Handel" where
  "Start h = startNextLevel (h\<lparr>proc := (proc h)\<lparr>procStarted := True\<rparr>\<rparr>)"

definition Stop :: "Handel \<Rightarrow> panic + Handel" where
  "Stop h =
     (let h1 = h\<lparr>ticker := False\<rparr>;
          h2 = h1\<lparr>proc := (proc h1)\<lparr>procStopped := True\<rparr>\<rparr>;
          h3 = h2\<lparr>done_h := True\<rparr>
      in case chan_close (out h3) of
           Inl e \<Rightarrow> Inl e
         | Inr ch \<Rightarrow> Inr (h3\<lparr>out := ch\<rparr>))"

subsection \<open>The actors on a verified signature\<close>

text \<open>
  \<^verbatim>\<open>newBest\<close>, the closure of \<^verbatim>\<open>checkFinalSignature\<close>. \<^verbatim>\<open>h.best\<close> keeps the pointer
  that the store returned; the model keeps the value it points to at that moment. A send
  on the output channel appends to what was sent (the channel of the source holds 100
  values and a send on a full channel waits for the reader).
\<close>

definition newBest :: "Handel \<Rightarrow> MultiSignature \<Rightarrow> panic + Handel" where
  "newBest h m =
     (if done_h h then Inr h
      else
        (let h1 = h\<lparr>best := Some m\<rparr> in
         case chan_send (out h1) m of
           Inl e \<Rightarrow> Inl e
         | Inr ch \<Rightarrow> Inr (h1\<lparr>out := ch\<rparr>)))"

definition checkFinalSignature :: "Handel \<Rightarrow> sigPair \<Rightarrow> panic + Handel" where
  "checkFinalSignature h s =
     (case FullSignature (store h) of
        None \<Rightarrow> Inl NilDereference
      | Some sg \<Rightarrow>
          (if Cardinality sg < threshold h then Inr h
           else
             (case best h of
                None \<Rightarrow> newBest h sg
              | Some b \<Rightarrow>
                  (let newCard = Cardinality sg; local = Cardinality b
                   in if newCard > local then newBest h sg else Inr h))))"

text \<open>
  \<^verbatim>\<open>checkCompletedLevel\<close> copies the level out of the slice: \<^verbatim>\<open>updateBestSig\<close> writes to
  the copy. \<^verbatim>\<open>s.level-1\<close> is computed on bytes. A nil aggregate with \<^verbatim>\<open>ok\<close> set
  is dereferenced by \<^verbatim>\<open>updateBestSig\<close>.
\<close>

definition checkCompletedLevel :: "Handel \<Rightarrow> sigPair \<Rightarrow> panic + Handel" where
  "checkCompletedLevel h s =
     (if unat (level s - 1) < length (levels h) then
        (let lvl = levels h ! unat (level s - 1) in
         if completed lvl then Inr h
         else
           (case Best (store h) (level s) of
              (mo, ok) \<Rightarrow>
                if \<not> ok then Inl StoreWrong
                else
                  (case mo of
                     None \<Rightarrow> Inl NilDereference
                   | Some m \<Rightarrow>
                       (case updateBestSig lvl m of
                          Inl e \<Rightarrow> Inl e
                        | Inr (improved, lvl') \<Rightarrow>
                            if \<not> improved then Inr h
                            else if level s = currLevel h then startNextLevel h
                            else if id_l lvl' < int (length (levels h)) - 1
                                 then sendBestUpTo h (id_l lvl')
                                 else Inr h))))
      else Inl IndexOutOfRange)"

subsection \<open>Runs of the aggregator\<close>

text \<open>
  One iteration of \<^verbatim>\<open>rangeOnVerified\<close>. \<^verbatim>\<open>h.store.Store(v.level, v.ms)\<close> is code outside
  \<^verbatim>\<open>src/\<close>: what the store answers after it is the parameter \<open>st\<close>. Then the two
  actors run in their order.
\<close>

definition rangeOnVerified_step :: "Handel \<Rightarrow> sigPair \<Rightarrow> signatureStore \<Rightarrow> panic + Handel" where
  "rangeOnVerified_step h v st =
     (let h1 = (logf h (LogNewVerified v))\<lparr>store := st\<rparr> in
      case checkCompletedLevel h1 v of
        Inl e \<Rightarrow> Inl e
      | Inr h2 \<Rightarrow> checkFinalSignature h2 v)"

text \<open>
  The aggregator mutex serialises the handlers, so a run is a sequence of events: a tick,
  a verified signature, a packet from the network, and the calls of \<^verbatim>\<open>Start\<close> and
  \<^verbatim>\<open>Stop\<close>. A panic ends the run.
\<close>

datatype event =
    Tick
  | Verified sigPair signatureStore
  | Arrives Packet
  | CallStart
  | CallStop

definition step :: "Handel \<Rightarrow> event \<Rightarrow> panic + Handel" where
  "step h e =
     (case e of
        Tick \<Rightarrow> periodicUpdate h
      | Verified v st \<Rightarrow> rangeOnVerified_step h v st
      | Arrives p \<Rightarrow> Inr (NewPacket h p)
      | CallStart \<Rightarrow> Start h
      | CallStop \<Rightarrow> Stop h)"

fun run :: "Handel \<Rightarrow> event list \<Rightarrow> panic + Handel" where
  "run h [] = Inr h"
| "run h (e # es) = (case step h e of Inl p \<Rightarrow> Inl p | Inr h' \<Rightarrow> run h' es)"

subsection \<open>Consecutive picks on one level\<close>

text \<open>
  \<open>PickNextAt_times k l\<close> is \<open>k\<close> consecutive calls of \<^verbatim>\<open>PickNextAt(1)\<close> on the same
  level, with the peers they return in the order of the calls.
\<close>

fun PickNextAt_times :: "nat \<Rightarrow> Level \<Rightarrow> panic + (Identity list \<times> Level)" where
  "PickNextAt_times 0 l = Inr ([], l)"
| "PickNextAt_times (Suc k) l =
     (case PickNextAt l 1 of
        Inl e \<Rightarrow> Inl e
      | Inr (ns, ok, l1) \<Rightarrow>
          (case PickNextAt_times k l1 of
             Inl e \<Rightarrow> Inl e
           | Inr (rest, l2) \<Rightarrow> Inr (ns @ rest, l2)))"

text \<open>
  The cursor of a level as \<^verbatim>\<open>NewLevel\<close> makes it and the methods of the level keep it:
  inside the candidate list, or at 0 when there is no candidate.
\<close>

definition Level_ok :: "Level \<Rightarrow> bool" where
  "Level_ok l \<longleftrightarrow>
     0 \<le> currentBestSize l \<and> 0 \<le> pos l \<and>
     (pos l < int (length (nodes l)) \<or> pos l = 0)"

subsection \<open>Concrete levels and signatures\<close>

text \<open>A level of three candidates with its cursor on the last one, and signatures of 2, 3 and 4 contributors.\<close>

definition ex_level :: Level where
  "ex_level = \<lparr>id_l = 2, nodes = [10, 11, 12], started = True, completed = False,
                finished = False, pos = 2, sent = 0, currentBestSize = 0\<rparr>"

definition sig_of :: "bool list \<Rightarrow> MultiSignature" where
  "sig_of bs = \<lparr>BitSet = bs, Signature = []\<rparr>"

subsection \<open>Construction\<close>

text \<open>
  \<^verbatim>\<open>createLevels\<close>. The partitioner is outside \<^verbatim>\<open>src/\<close>: \<open>part lvl bound\<close> is the list that
  its \<^verbatim>\<open>PickNextAt(lvl, bound)\<close> returns. \<^verbatim>\<open>make\<close> panics on a negative length.
\<close>

fun createLevels_loop :: "(int \<Rightarrow> int \<Rightarrow> Identity list) \<Rightarrow> Registry \<Rightarrow> nat list \<Rightarrow> panic + Level list" where
  "createLevels_loop part r [] = Inr []"
| "createLevels_loop part r (i # rest) =
     (case NewLevel (int i + 1) (part (int i + 1) (Size r + 1)) of
        Inl e \<Rightarrow> Inl e
      | Inr l \<Rightarrow>
          (case createLevels_loop part r rest of
             Inl e \<Rightarrow> Inl e
           | Inr ls \<Rightarrow> Inr (l # ls)))"

definition createLevels :: "Externals \<Rightarrow> Registry \<Rightarrow> (int \<Rightarrow> int \<Rightarrow> Identity list) \<Rightarrow> panic + Level list" where
  "createLevels x r part =
     (if log2 x (Size r) < 0 then Inl MakeSliceLenOutOfRange
      else createLevels_loop part r [0..<nat (log2 x (Size r))])"

text \<open>
  \<^verbatim>\<open>NewHandel\<close>, as far as \<^verbatim>\<open>src/\<close> determines it. The merged configuration \<open>conf\<close>, the
  value \<open>thr\<close> of \<^verbatim>\<open>ContributionsThreshold\<close> and the store \<open>st\<close> as \<^verbatim>\<open>newReplaceStore\<close>
  and \<^verbatim>\<open>Store(0, mySig)\<close> leave it come from code outside \<^verbatim>\<open>src/\<close>. \<^verbatim>\<open>best\<close> is nil,
  \<^verbatim>\<open>done\<close> false and \<^verbatim>\<open>currLevel\<close> 0, the zero values of Go; the channel is new and the
  ticker runs.
\<close>

definition NewHandel ::
  "Externals \<Rightarrow> Config \<Rightarrow> Registry \<Rightarrow> Identity \<Rightarrow> (int \<Rightarrow> int \<Rightarrow> Identity list) \<Rightarrow>
     int \<Rightarrow> signatureStore \<Rightarrow> panic + Handel" where
  "NewHandel x conf r ident part thr st =
     (case createLevels x r part of
        Inl e \<Rightarrow> Inl e
      | Inr lvls \<Rightarrow>
          Inr \<lparr>ext = x, c_h = conf, net = [], reg = r, id_h = ident, store = st,
               proc = \<lparr>Incoming = [], procStarted = False, procStopped = False\<rparr>,
               currLevel = 0, best = None, out = \<lparr>buf = [], closed = False\<rparr>,
               done_h = False, threshold = thr, ticker = True, levels = lvls, logs = []\<rparr>)"

subsection \<open>A concrete aggregator\<close>

text \<open>
  Node 4 of a registry of 5: its levels 1 and 2 have no candidate, level 3 has the nodes
  0 to 3. The codecs write one byte for each bit. The store answers with an aggregate of
  \<open>k + 1\<close> contributors for \<^verbatim>\<open>Combined(k)\<close> and of 4 for \<^verbatim>\<open>FullSignature()\<close>.
\<close>

definition ex_ext :: Externals where
  "ex_ext = \<lparr>log2 = (\<lambda>n. if n \<le> 1 then 0 else if n \<le> 2 then 1 else if n \<le> 4 then 2 else 3),
             MarshalBinary = (\<lambda>m. Inr (map (\<lambda>b. if b then 1 else 0) (BitSet m))),
             Unmarshal = (\<lambda>bs. if bs = [] then Inl ''empty''
                                else Inr \<lparr>BitSet = map (\<lambda>b. b \<noteq> 0) bs, Signature = []\<rparr>)\<rparr>"

definition ex_part :: "int \<Rightarrow> int \<Rightarrow> Identity list" where
  "ex_part lvl bound = (if lvl = 3 then [0, 1, 2, 3] else [])"

definition ex_store :: signatureStore where
  "ex_store = \<lparr>Best = (\<lambda>k. (Some (sig_of [True, True, True, True]), True)),
               Combined = (\<lambda>k. Some (sig_of (replicate (unat k + 1) True))),
               FullSignature = Some (sig_of [True, True, True, True])\<rparr>"

definition ex_levels :: "Level list" where
  "ex_levels =
     [\<lparr>id_l = 1, nodes = [], started = True, completed = False, finished = False,
       pos = 0, sent = 0, currentBestSize = 0\<rparr>,
      \<lparr>id_l = 2, nodes = [], started = True, completed = False, finished = False,
       pos = 0, sent = 0, currentBestSize = 0\<rparr>,
      \<lparr>id_l = 3, nodes = [0, 1, 2, 3], started = True, completed = False, finished = False,
       pos = 0, sent = 0, currentBestSize = 0\<rparr>]"

definition ex_handel :: Handel where
  "ex_handel =
     \<lparr>ext = ex_ext, c_h = \<lparr>CandidateCount = 10\<rparr>, net = [], reg = \<lparr>Size = 5\<rparr>, id_h = 4,
      store = ex_store,
      proc = \<lparr>Incoming = [], procStarted = False, procStopped = False\<rparr>,
      currLevel = 0, best = None, out = \<lparr>buf = [], closed = False\<rparr>,
      done_h = False, threshold = 3, ticker = True, levels = ex_levels, logs = []\<rparr>"

definition ex_verified :: sigPair where
  "ex_verified = \<lparr>origin = 0, level = 3, ms = sig_of [True, True, True, True]\<rparr>"

subsection \<open>The values on the output channel\<close>

text \<open>
  \<open>final_inv T h\<close>: the threshold is \<open>T\<close>; every value sent on the output channel so far
  has at least \<open>T\<close> contributors and no more than the current \<^verbatim>\<open>best\<close>; the values were
  sent in strictly increasing cardinality; nothing was sent while \<^verbatim>\<open>best\<close> is nil.
\<close>

definition final_inv :: "int \<Rightarrow> Handel \<Rightarrow> bool" where
  "final_inv T h \<longleftrightarrow>
     threshold h = T \<and>
     list_all (\<lambda>m. T \<le> Cardinality m) (buf (out h)) \<and>
     sorted_wrt (\<lambda>a b. Cardinality a < Cardinality b) (buf (out h)) \<and>
     (case best h of
        None \<Rightarrow> buf (out h) = []
      | Some b \<Rightarrow> list_all (\<lambda>m. Cardinality m \<le> Cardinality b) (buf (out h)))"

definition ex_store5 :: signatureStore where
  "ex_store5 = ex_store\<lparr>FullSignature := Some (sig_of [True, True, True, True, True])\<rparr>"

definition ex_store2 :: signatureStore where
  "ex_store2 = ex_store\<lparr>FullSignature := Some (sig_of [True, True])\<rparr>"

text \<open>The concrete aggregator after \<^verbatim>\<open>Stop\<close>, a packet, and a store in which level 1 is missing.\<close>

definition ex_stopped :: Handel where
  "ex_stopped =
     ex_handel\<lparr>ticker := False,
                proc := \<lparr>Incoming = [], procStarted = False, procStopped = True\<rparr>,
                done_h := True, out := \<lparr>buf = [], closed = True\<rparr>\<rparr>"

definition ex_packet :: Packet where
  "ex_packet = \<lparr>Origin = 2, Level = 3, MultiSig = [1, 1, 0, 0]\<rparr>"

definition ex_store_gap :: signatureStore where
  "ex_store_gap = ex_store\<lparr>Combined := (\<lambda>k. if k = 0 then Some (sig_of [True]) else None)\<rparr>"

text \<open>The concrete aggregator with the store in which level 1 is missing, and a packet whose origin is negative.\<close>

definition ex_handel_gap :: Handel where
  "ex_handel_gap = ex_handel\<lparr>store := ex_store_gap\<rparr>"

definition ex_packet_neg :: Packet where
  "ex_packet_neg = \<lparr>Origin = - 1, Level = 3, MultiSig = [1, 1, 0, 0]\<rparr>"

text \<open>An aggregator whose levels above the first have no candidate.\<close>

definition ex_handel_top_empty :: Handel where
  "ex_handel_top_empty =
     ex_handel\<lparr>levels :=
       [\<lparr>id_l = 1, nodes = [5], started = True, completed = False, finished = False,
         pos = 0, sent = 0, currentBestSize = 0\<rparr>,
        \<lparr>id_l = 2, nodes = [], started = True, completed = False, finished = False,
         pos = 0, sent = 0, currentBestSize = 0\<rparr>]\<rparr>"

section \<open>Properties of a level\<close>

lemma Cardinality_nonneg: "0 \<le> Cardinality sg"
  by (simp add: Cardinality_def)

lemma sint_add_no_wrap:
  fixes a :: int64
  assumes "- (2 ^ 63) \<le> sint a + k" "sint a + k < 2 ^ 63"
  shows "sint (a + word_of_int k) = sint a + k"
proof -
  have "a + word_of_int k = word_of_int (sint a + k)"
    by simp
  then have "sint (a + word_of_int k) = signed_take_bit 63 (sint a + k)"
    by (simp only: sint_sbintrunc') simp
  also have "\<dots> = sint a + k"
    using assms by (simp add: signed_take_bit_int_eq_self)
  finally show ?thesis .
qed

lemma PickNextAt_loop_cursor:
  assumes "0 \<le> pos c" "pos c < int (length (nodes c))"
  shows "PickNextAt_loop k c res =
           Inr (res @ map (\<lambda>i. nodes c ! ((nat (pos c) + i) mod length (nodes c))) [0..<k],
                c\<lparr>pos := (pos c + int k) mod int (length (nodes c))\<rparr>)"
  using assms
proof (induction k arbitrary: c res)
  case 0
  then show ?case by simp
next
  case (Suc k)
  let ?n = "length (nodes c)"
  let ?c2 = "c\<lparr>pos := (pos c + 1) mod int ?n\<rparr>"
  have n0: "0 < ?n" using Suc.prems by auto
  have step: "PickNextAt_loop (Suc k) c res = PickNextAt_loop k ?c2 (res @ [nodes c ! nat (pos c)])"
  proof (cases "pos c + 1 \<ge> int ?n")
    case True
    with Suc.prems have "pos c + 1 = int ?n" by simp
    then have "(pos c + 1) mod int ?n = 0" by simp
    with True Suc.prems show ?thesis by (simp add: Let_def)
  next
    case False
    with Suc.prems have "(pos c + 1) mod int ?n = pos c + 1" by simp
    with False Suc.prems show ?thesis by (simp add: Let_def)
  qed
  have p2: "0 \<le> pos ?c2" "pos ?c2 < int (length (nodes ?c2))"
    using n0 by simp_all
  have natp: "nat ((pos c + 1) mod int ?n) = (nat (pos c) + 1) mod ?n"
    using Suc.prems by (simp add: nat_mod_distrib nat_add_distrib)
  have idx: "\<And>i. (nat ((pos c + 1) mod int ?n) + i) mod ?n = Suc (nat (pos c) + i) mod ?n"
    unfolding natp by (simp add: mod_add_left_eq)
  have m: "map (\<lambda>i. nodes c ! ((nat (pos c) + i) mod ?n)) [0..<Suc k] =
        nodes c ! nat (pos c) # map (\<lambda>i. nodes c ! ((nat (pos ?c2) + i) mod ?n)) [0..<k]"
  proof -
    have "[0..<Suc k] = 0 # map Suc [0..<k]"
      by (simp add: upt_conv_Cons map_Suc_upt del: upt_Suc)
    then show ?thesis using Suc.prems
      by (simp add: idx comp_def del: upt_Suc)
  qed
  have fin: "(pos ?c2 + int k) mod int ?n = (pos c + int (Suc k)) mod int ?n"
    by (simp add: mod_add_left_eq add.assoc)
  show ?case
    unfolding step Suc.IH [OF p2] m using fin
    by simp
qed

lemma PickNextAt_result:
  assumes "0 \<le> count" "0 \<le> pos l" "pos l < int (length (nodes l))"
  shows "PickNextAt l count =
           Inr (map (\<lambda>i. nodes l ! ((nat (pos l) + i) mod length (nodes l)))
                    [0..<nat (min count (int (length (nodes l))))],
                True,
                l\<lparr>pos := (pos l + min count (int (length (nodes l)))) mod int (length (nodes l)),
                  sent := sent l + word_of_int (min count (int (length (nodes l)))),
                  finished := (finished l \<or>
                     int (length (nodes l)) \<le>
                       sint (sent l + word_of_int (min count (int (length (nodes l))))))\<rparr>)"
proof -
  let ?size = "min count (int (length (nodes l)))"
  have s0: "\<not> ?size < 0" using assms by simp
  have k: "int (nat ?size) = ?size" using assms by simp
  show ?thesis
    unfolding PickNextAt_def Let_def PickNextAt_loop_cursor [OF assms(2,3)] k
    using s0 by (cases "finished l") simp_all
qed

lemma PickNextAt_empty:
  assumes "nodes l = []" "0 \<le> count"
  shows "PickNextAt l count =
           Inr ([], True, if 0 \<le> sint (sent l) then l\<lparr>finished := True\<rparr> else l)"
proof -
  have "min count (int (length (nodes l))) = 0" using assms by simp
  then show ?thesis
    unfolding PickNextAt_def Let_def using assms by simp
qed

lemma PickNextAt_times_cursor:
  assumes "0 \<le> pos l" "pos l < int (length (nodes l))"
  shows "\<exists>l'. PickNextAt_times k l =
                 Inr (map (\<lambda>i. nodes l ! ((nat (pos l) + i) mod length (nodes l))) [0..<k], l')
             \<and> nodes l' = nodes l
             \<and> pos l' = (pos l + int k) mod int (length (nodes l))"
  using assms
proof (induction k arbitrary: l)
  case 0
  then show ?case by simp
next
  case (Suc k)
  let ?n = "length (nodes l)"
  have n1: "min 1 (int ?n) = 1" using Suc.prems by simp
  obtain l1 where l1: "PickNextAt l 1 = Inr ([nodes l ! nat (pos l)], True, l1)"
    and nl1: "nodes l1 = nodes l" and pl1: "pos l1 = (pos l + 1) mod int ?n"
    using PickNextAt_result [of 1 l] Suc.prems by (simp add: n1)
  have n0: "0 < int ?n" using Suc.prems by linarith
  have p1: "0 \<le> pos l1" "pos l1 < int (length (nodes l1))"
    using n0 by (simp_all add: nl1 pl1)
  from Suc.IH [OF p1] obtain l2 where
    l2: "PickNextAt_times k l1 =
           Inr (map (\<lambda>i. nodes l ! ((nat (pos l1) + i) mod ?n)) [0..<k], l2)"
    and nl2: "nodes l2 = nodes l" and pl2: "pos l2 = (pos l1 + int k) mod int ?n"
    by (auto simp: nl1)
  have natp: "nat (pos l1) = (nat (pos l) + 1) mod ?n"
    using Suc.prems by (simp add: pl1 nat_mod_distrib nat_add_distrib)
  have idx: "\<And>i. (nat (pos l1) + i) mod ?n = (nat (pos l) + Suc i) mod ?n"
    unfolding natp by (simp add: mod_add_left_eq)
  have "[0..<Suc k] = 0 # map Suc [0..<k]"
    by (simp add: upt_conv_Cons map_Suc_upt del: upt_Suc)
  then have m: "map (\<lambda>i. nodes l ! ((nat (pos l) + i) mod ?n)) [0..<Suc k] =
        nodes l ! nat (pos l) # map (\<lambda>i. nodes l ! ((nat (pos l1) + i) mod ?n)) [0..<k]"
    using Suc.prems by (simp add: idx comp_def del: upt_Suc)
  have fin: "pos l2 = (pos l + int (Suc k)) mod int ?n"
    by (simp add: pl2 pl1 mod_add_left_eq add.assoc)
  show ?case
    unfolding m using l1 l2 nl2 fin by simp
qed

lemma Level_ok_NewLevel: "NewLevel i ns = Inr l \<Longrightarrow> Level_ok l"
  by (auto simp: NewLevel_def Level_ok_def split: if_splits)

lemma Level_ok_updateBestSig:
  "Level_ok l \<Longrightarrow> updateBestSig l sg = Inr (b, l') \<Longrightarrow> Level_ok l'"
  using Cardinality_nonneg [of sg]
  by (auto simp: updateBestSig_def Level_ok_def Let_def split: if_splits)

lemma Level_ok_PickNextAt:
  assumes "Level_ok l" "PickNextAt l count = Inr (ns, ok, l')"
  shows "Level_ok l'"
proof (cases "count < 0")
  case True
  then have "min count (int (length (nodes l))) < 0" by simp
  with True assms(2) show ?thesis by (simp add: PickNextAt_def Let_def)
next
  case c0: False
  show ?thesis
  proof (cases "nodes l = []")
    case True
    with assms c0 PickNextAt_empty [of l count] show ?thesis
      by (auto simp: Level_ok_def split: if_splits)
  next
    case False
    with assms(1) have p: "0 \<le> pos l" "pos l < int (length (nodes l))"
      by (auto simp: Level_ok_def)
    from c0 have c: "0 \<le> count" by simp
    then have m: "0 \<le> min count (int (length (nodes l)))" by simp
    have n0: "0 < int (length (nodes l))" using p by linarith
    from PickNextAt_result [OF c p] assms(2)
    have l': "l' = l\<lparr>pos := (pos l + min count (int (length (nodes l)))) mod int (length (nodes l)),
                  sent := sent l + word_of_int (min count (int (length (nodes l)))),
                  finished := (finished l \<or>
                     int (length (nodes l)) \<le>
                       sint (sent l + word_of_int (min count (int (length (nodes l))))))\<rparr>"
      by simp
    show ?thesis
      unfolding l' using assms(1) n0 by (simp add: Level_ok_def)
  qed
qed

section \<open>Claims about a level\<close>

text \<open>
  C4. \<^verbatim>\<open>updateBestSig\<close>. For a signature whose cardinality is at most the number of
  candidates of the level: when the cardinality is at most \<^verbatim>\<open>currentBestSize\<close> (equal
  included) the call returns false and the level is unchanged; otherwise
  \<^verbatim>\<open>currentBestSize\<close> becomes the cardinality, \<^verbatim>\<open>sent\<close> becomes 0, \<^verbatim>\<open>finished\<close> is
  cleared, and the call returns true exactly when the new \<^verbatim>\<open>currentBestSize\<close> is the
  number of candidates. A cardinality above the number of candidates panics.
\<close>

theorem updateBestSig_spec:
  "(Cardinality sg \<le> int (length (nodes l)) \<longrightarrow>
      (Cardinality sg \<le> currentBestSize l \<longrightarrow> updateBestSig l sg = Inr (False, l)) \<and>
      (currentBestSize l < Cardinality sg \<longrightarrow>
         updateBestSig l sg =
           Inr (Cardinality sg = int (length (nodes l)),
                l\<lparr>currentBestSize := Cardinality sg, finished := False, sent := 0\<rparr>))) \<and>
   (int (length (nodes l)) < Cardinality sg \<longrightarrow>
      updateBestSig l sg =
        Inl (TooManySignatures (id_l l) (int (length (nodes l))) (Cardinality sg)))"
  by (simp add: updateBestSig_def Let_def)

theorem updateBestSig_spec_witness:
  "updateBestSig (ex_level\<lparr>currentBestSize := 2, finished := True, sent := 3\<rparr>)
       (sig_of [True, False, True])
     = Inr (False, ex_level\<lparr>currentBestSize := 2, finished := True, sent := 3\<rparr>) \<and>
   updateBestSig (ex_level\<lparr>currentBestSize := 1, finished := True, sent := 3\<rparr>)
       (sig_of [True, False, True])
     = Inr (False, ex_level\<lparr>currentBestSize := 2, finished := False, sent := 0\<rparr>) \<and>
   updateBestSig (ex_level\<lparr>currentBestSize := 2, finished := True, sent := 3\<rparr>)
       (sig_of [True, True, True])
     = Inr (True, ex_level\<lparr>currentBestSize := 3, finished := False, sent := 0\<rparr>) \<and>
   updateBestSig ex_level (sig_of [True, True, True, True])
     = Inl (TooManySignatures 2 3 4)"
  using updateBestSig_spec [of "sig_of [True, False, True]"
          "ex_level\<lparr>currentBestSize := 2, finished := True, sent := 3\<rparr>"]
        updateBestSig_spec [of "sig_of [True, False, True]"
          "ex_level\<lparr>currentBestSize := 1, finished := True, sent := 3\<rparr>"]
        updateBestSig_spec [of "sig_of [True, True, True]"
          "ex_level\<lparr>currentBestSize := 2, finished := True, sent := 3\<rparr>"]
        updateBestSig_spec [of "sig_of [True, True, True, True]" ex_level]
  by (simp add: ex_level_def sig_of_def Cardinality_def)

text \<open>
  C6. \<^verbatim>\<open>PickNextAt\<close> on a level with candidates, for a count that is not negative. The
  call returns the next \<open>min count |nodes|\<close> candidates from the cursor \<^verbatim>\<open>pos\<close>, wrapping
  around; the cursor advances by that number modulo \<open>|nodes|\<close>; \<^verbatim>\<open>sent\<close> is incremented
  by that number, in the 64-bit arithmetic of the code (so by exactly that number as long
  as the sum stays below \<open>2^63\<close>); \<^verbatim>\<open>finished\<close> is set when \<^verbatim>\<open>sent\<close>, as the code reads
  it afterwards, is at least \<open>|nodes|\<close>, and is otherwise left as it was. \<open>k\<close> consecutive
  calls of \<^verbatim>\<open>PickNextAt(1)\<close> return the candidates in round-robin order from the cursor.
  The level is one that the code can build (\<open>Level_ok\<close>: \<^verbatim>\<open>NewLevel\<close> establishes it and
  both methods keep it).
\<close>

theorem PickNextAt_spec:
  assumes "Level_ok l" "nodes l \<noteq> []" "0 \<le> count"
  shows "PickNextAt l count =
           Inr (map (\<lambda>i. nodes l ! ((nat (pos l) + i) mod length (nodes l)))
                    [0..<nat (min count (int (length (nodes l))))],
                True,
                l\<lparr>pos := (pos l + min count (int (length (nodes l)))) mod int (length (nodes l)),
                  sent := sent l + word_of_int (min count (int (length (nodes l)))),
                  finished := (finished l \<or>
                     int (length (nodes l)) \<le>
                       sint (sent l + word_of_int (min count (int (length (nodes l))))))\<rparr>) \<and>
         (sint (sent l) + min count (int (length (nodes l))) < 2 ^ 63 \<longrightarrow>
            sint (sent l + word_of_int (min count (int (length (nodes l))))) =
              sint (sent l) + min count (int (length (nodes l)))) \<and>
         (\<exists>l'. PickNextAt_times k l =
                 Inr (map (\<lambda>i. nodes l ! ((nat (pos l) + i) mod length (nodes l))) [0..<k], l')
             \<and> nodes l' = nodes l
             \<and> pos l' = (pos l + int k) mod int (length (nodes l)))"
proof -
  from assms(1,2) have p: "0 \<le> pos l" "pos l < int (length (nodes l))"
    by (auto simp: Level_ok_def)
  have w: "sint (sent l + word_of_int (min count (int (length (nodes l))))) =
              sint (sent l) + min count (int (length (nodes l)))"
    if "sint (sent l) + min count (int (length (nodes l))) < 2 ^ 63"
  proof (rule sint_add_no_wrap [OF _ that])
    have "- (2 ^ 63) \<le> sint (sent l)"
      using sint_ge [of "sent l"] by simp
    with assms(3) show "- (2 ^ 63) \<le> sint (sent l) + min count (int (length (nodes l)))"
      by simp
  qed
  from PickNextAt_result [OF assms(3) p] PickNextAt_times_cursor [OF p, of k] w
  show ?thesis by blast
qed

theorem PickNextAt_spec_witness:
  "Level_ok ex_level \<and> nodes ex_level \<noteq> [] \<and> (0::int) \<le> 2 \<and>
   PickNextAt ex_level 2 =
     Inr ([12, 10], True, ex_level\<lparr>pos := 1, sent := 2, finished := False\<rparr>) \<and>
   PickNextAt ex_level 7 =
     Inr ([12, 10, 11], True, ex_level\<lparr>pos := 2, sent := 3, finished := True\<rparr>) \<and>
   sint (sent ex_level) + min 2 (int (length (nodes ex_level))) < 2 ^ 63 \<and>
   sint (sent ex_level + word_of_int (min 2 (int (length (nodes ex_level))))) = 2 \<and>
   (\<exists>l'. PickNextAt_times 5 ex_level = Inr ([12, 10, 11, 12, 10], l') \<and> pos l' = 1)"
proof -
  have ok: "Level_ok ex_level" and ne: "nodes ex_level \<noteq> []"
    by (simp_all add: Level_ok_def ex_level_def)
  have up5: "[0..<5] = [0, 1, 2, 3, 4]" and up2: "[0..<2] = [0, 1]" and up3: "[0..<3] = [0, 1, 2]"
    by (simp_all add: upt_rec)
  have a: "PickNextAt ex_level 2 =
     Inr ([12, 10], True, ex_level\<lparr>pos := 1, sent := 2, finished := False\<rparr>)"
    using PickNextAt_spec [OF ok ne, of 2 0] by (simp add: ex_level_def up2)
  have b: "PickNextAt ex_level 7 =
     Inr ([12, 10, 11], True, ex_level\<lparr>pos := 2, sent := 3, finished := True\<rparr>)"
    using PickNextAt_spec [OF ok ne, of 7 0] by (simp add: ex_level_def up3)
  have lt: "sint (sent ex_level) + min 2 (int (length (nodes ex_level))) < 2 ^ 63"
    by (simp add: ex_level_def)
  have c: "sint (sent ex_level + word_of_int (min 2 (int (length (nodes ex_level))))) = 2"
    using PickNextAt_spec [OF ok ne, of 2 0] lt by (simp add: ex_level_def)
  have d: "\<exists>l'. PickNextAt_times 5 ex_level = Inr ([12, 10, 11, 12, 10], l') \<and> pos l' = 1"
    using PickNextAt_spec [OF ok ne, of 0 5] by (auto simp: ex_level_def up5)
  from ok ne a b lt c d show ?thesis by simp
qed

text \<open>
  At the limit of the 64-bit integers the counter wraps around, as in the code: from
  \<open>2^63 - 1\<close> a pick of one peer leaves \<^verbatim>\<open>sent\<close> at \<open>- 2^63\<close>, and \<^verbatim>\<open>finished\<close> is
  not set.
\<close>

lemma PickNextAt_sent_wraps:
  "PickNextAt (ex_level\<lparr>sent := 9223372036854775807\<rparr>) 1 =
     Inr ([12], True, ex_level\<lparr>pos := 0, sent := 9223372036854775808\<rparr>) \<and>
   sint (9223372036854775808 :: int64) = - 9223372036854775808"
  using PickNextAt_result [of 1 "ex_level\<lparr>sent := 9223372036854775807\<rparr>"]
  by (simp add: ex_level_def)

section \<open>The concrete aggregator is the one the constructor builds\<close>

lemma ex_handel_NewHandel:
  "NewHandel ex_ext \<lparr>CandidateCount = 10\<rparr> \<lparr>Size = 5\<rparr> 4 ex_part 3 ex_store = Inr ex_handel"
proof -
  have "[0..<3] = [0, 1, 2]" by (simp add: upt_rec)
  then show ?thesis
    by (simp add: NewHandel_def createLevels_def ex_ext_def NewLevel_def ex_part_def
          ex_handel_def ex_levels_def)
qed

section \<open>What each handler leaves unchanged\<close>

lemma sendTo_frame: "sendTo h lvl m ids = h\<lparr>net := net (sendTo h lvl m ids), logs := logs (sendTo h lvl m ids)\<rparr>"
  by (simp add: sendTo_def logf_def split: sum.splits)

lemma sendUpdate_frame:
  assumes "sendUpdate h l count = Inr h'"
  shows "h' = h\<lparr>net := net h', logs := logs h'\<rparr>"
  using assms
  by (auto simp: sendUpdate_def sendTo_def logf_def split: if_splits option.splits sum.splits)

lemma sendBestUpTo_frame:
  assumes "sendBestUpTo h lvl = Inr h'"
  shows "h' = h\<lparr>net := net h', logs := logs h'\<rparr>"
  using assms
  by (auto simp: sendBestUpTo_def split: if_splits sum.splits option.splits
        dest: sendUpdate_frame)

lemma startNextLevel_frame:
  assumes "startNextLevel h = Inr h'"
  shows "h' = h\<lparr>net := net h', logs := logs h', currLevel := currLevel h'\<rparr>"
proof (cases "uint (currLevel h) \<ge> int (length (levels h))")
  case True
  with assms show ?thesis by (auto simp: startNextLevel_def logf_def)
next
  case False
  with assms obtain h1 where s: "sendBestUpTo h (uint (currLevel h)) = Inr h1"
    and h': "h' = logf (h1\<lparr>currLevel := currLevel h1 + 1\<rparr>)
                    (LogPassing (currLevel h1 + 1 - 1) (currLevel h1 + 1))"
    by (auto simp: startNextLevel_def Let_def split: sum.splits)
  from sendBestUpTo_frame [OF s] have "h1 = h\<lparr>net := net h1, logs := logs h1\<rparr>" .
  then have "h' = (h\<lparr>net := net h1, logs := logs h1\<rparr>)\<lparr>currLevel := currLevel h1 + 1,
      logs := logs h1 @ [LogPassing (currLevel h1 + 1 - 1) (currLevel h1 + 1)]\<rparr>"
    unfolding h' logf_def by simp
  then show ?thesis by simp
qed

lemma periodicUpdate_loop_frame:
  "periodicUpdate_loop h ls = Inr h' \<Longrightarrow> h' = h\<lparr>net := net h', logs := logs h'\<rparr>"
proof (induction ls arbitrary: h)
  case Nil
  then show ?case by simp
next
  case (Cons l ls)
  then obtain h1 where s: "sendUpdate h l 1 = Inr h1" and r: "periodicUpdate_loop h1 ls = Inr h'"
    by (auto split: sum.splits)
  from sendUpdate_frame [OF s] have a: "h1 = h\<lparr>net := net h1, logs := logs h1\<rparr>" .
  from Cons.IH [OF r] have "h' = h1\<lparr>net := net h', logs := logs h'\<rparr>" .
  then have "h' = (h\<lparr>net := net h1, logs := logs h1\<rparr>)\<lparr>net := net h', logs := logs h'\<rparr>"
    using a by simp
  then show ?case by simp
qed

lemma periodicUpdate_frame:
  "periodicUpdate h = Inr h' \<Longrightarrow> h' = h\<lparr>net := net h', logs := logs h'\<rparr>"
  unfolding periodicUpdate_def by (rule periodicUpdate_loop_frame)

lemma checkCompletedLevel_cases:
  assumes "checkCompletedLevel h s = Inr h'"
  shows "h' = h \<or> startNextLevel h = Inr h' \<or> (\<exists>i. sendBestUpTo h i = Inr h')"
proof -
  let ?lvl = "levels h ! unat (level s - 1)"
  from assms have idx: "unat (level s - 1) < length (levels h)"
    by (simp add: checkCompletedLevel_def split: if_splits)
  show ?thesis
  proof (cases "completed ?lvl")
    case True
    with assms idx show ?thesis by (simp add: checkCompletedLevel_def)
  next
    case nc: False
    obtain mo ok where b: "Best (store h) (level s) = (mo, ok)" by (cases "Best (store h) (level s)")
    from assms idx nc b have ok: "ok"
      by (cases ok) (simp_all add: checkCompletedLevel_def)
    from assms idx nc b ok obtain m where m: "mo = Some m"
      by (cases mo) (simp_all add: checkCompletedLevel_def)
    from assms idx nc b ok m obtain r lvl' where u: "updateBestSig ?lvl m = Inr (r, lvl')"
      by (cases "updateBestSig ?lvl m") (auto simp: checkCompletedLevel_def)
    from assms idx nc b ok m u
    have "(if \<not> r then Inr h
           else if level s = currLevel h then startNextLevel h
           else if id_l lvl' < int (length (levels h)) - 1
                then sendBestUpTo h (id_l lvl') else Inr h) = Inr h'"
      by (simp add: checkCompletedLevel_def)
    then show ?thesis by (auto split: if_splits)
  qed
qed

lemma checkCompletedLevel_frame:
  assumes "checkCompletedLevel h s = Inr h'"
  shows "h' = h\<lparr>net := net h', logs := logs h', currLevel := currLevel h'\<rparr>"
proof -
  from checkCompletedLevel_cases [OF assms]
  consider "h' = h" | "startNextLevel h = Inr h'" | i where "sendBestUpTo h i = Inr h'"
    by blast
  then show ?thesis
  proof cases
    case 1
    then show ?thesis by simp
  next
    case 2
    then show ?thesis by (rule startNextLevel_frame)
  next
    case 3
    from sendBestUpTo_frame [OF this] have e: "h' = h\<lparr>net := net h', logs := logs h'\<rparr>" .
    have "currLevel h' = currLevel (h\<lparr>net := net h', logs := logs h'\<rparr>)"
      by (rule arg_cong [OF e])
    then have "currLevel h' = currLevel h" by simp
    with e show ?thesis by simp
  qed
qed

lemma frame_fields:
  assumes "h' = h\<lparr>net := n, logs := g, currLevel := c\<rparr>"
  shows "levels h' = levels h" "out h' = out h" "best h' = best h" "done_h h' = done_h h"
    "threshold h' = threshold h" "proc h' = proc h" "store h' = store h"
  by (simp_all add: assms)

lemma sends_fields:
  assumes "h' = h\<lparr>net := n, logs := g\<rparr>"
  shows "levels h' = levels h" "out h' = out h" "best h' = best h" "done_h h' = done_h h"
    "threshold h' = threshold h" "proc h' = proc h" "store h' = store h"
    "currLevel h' = currLevel h"
  by (simp_all add: assms)

lemma packet_fields:
  assumes "h' = h\<lparr>proc := q, logs := g\<rparr>"
  shows "levels h' = levels h" "out h' = out h" "best h' = best h" "done_h h' = done_h h"
    "threshold h' = threshold h"
  by (simp_all add: assms)

lemma start_fields:
  assumes "h' = h\<lparr>proc := q, net := n, logs := g, currLevel := c\<rparr>"
  shows "levels h' = levels h" "out h' = out h" "best h' = best h" "done_h h' = done_h h"
    "threshold h' = threshold h" "Incoming (proc h') = Incoming q"
  by (simp_all add: assms)

lemma checkFinalSignature_cases:
  assumes "checkFinalSignature h s = Inr h'"
  shows "h' = h \<or>
         (\<exists>sg. FullSignature (store h) = Some sg \<and> threshold h \<le> Cardinality sg \<and>
               (best h = None \<or> (\<exists>b. best h = Some b \<and> Cardinality b < Cardinality sg)) \<and>
               \<not> done_h h \<and> \<not> closed (out h) \<and>
               h' = h\<lparr>best := Some sg, out := (out h)\<lparr>buf := buf (out h) @ [sg]\<rparr>\<rparr>)"
proof -
  from assms obtain sg where f: "FullSignature (store h) = Some sg"
    by (cases "FullSignature (store h)") (simp_all add: checkFinalSignature_def)
  have nb: "h' = h \<or> (\<not> done_h h \<and> \<not> closed (out h) \<and>
              h' = h\<lparr>best := Some sg, out := (out h)\<lparr>buf := buf (out h) @ [sg]\<rparr>\<rparr>)"
    if "newBest h sg = Inr h'"
    using that by (auto simp: newBest_def chan_send_def Let_def split: if_splits)
  show ?thesis
  proof (cases "Cardinality sg < threshold h")
    case True
    with assms f show ?thesis by (simp add: checkFinalSignature_def)
  next
    case t: False
    show ?thesis
    proof (cases "best h")
      case None
      with assms f t have "newBest h sg = Inr h'" by (simp add: checkFinalSignature_def)
      from nb [OF this] f t None show ?thesis by auto
    next
      case (Some b)
      show ?thesis
      proof (cases "Cardinality b < Cardinality sg")
        case True
        with assms f t Some have "newBest h sg = Inr h'"
          by (simp add: checkFinalSignature_def Let_def)
        from nb [OF this] f t Some True show ?thesis by auto
      next
        case False
        with assms f t Some show ?thesis by (simp add: checkFinalSignature_def Let_def)
      qed
    qed
  qed
qed

lemma NewPacket_frame: "NewPacket h p = h\<lparr>proc := proc (NewPacket h p), logs := logs (NewPacket h p)\<rparr>"
  by (simp add: NewPacket_def logf_def Let_def split: sum.splits)

lemma Stop_result:
  assumes "Stop h = Inr h'"
  shows "\<not> closed (out h) \<and>
         h' = h\<lparr>ticker := False, proc := (proc h)\<lparr>procStopped := True\<rparr>, done_h := True,
                out := (out h)\<lparr>closed := True\<rparr>\<rparr>"
  using assms by (auto simp: Stop_def chan_close_def Let_def split: if_splits)

lemma Start_frame:
  assumes "Start h = Inr h'"
  shows "h' = h\<lparr>proc := (proc h)\<lparr>procStarted := True\<rparr>,
                net := net h', logs := logs h', currLevel := currLevel h'\<rparr>"
proof -
  from assms have "startNextLevel (h\<lparr>proc := (proc h)\<lparr>procStarted := True\<rparr>\<rparr>) = Inr h'"
    by (simp add: Start_def)
  from startNextLevel_frame [OF this] show ?thesis by simp
qed

lemma rangeOnVerified_step_split:
  assumes "rangeOnVerified_step h v st = Inr h'"
  obtains h2 where "checkCompletedLevel ((logf h (LogNewVerified v))\<lparr>store := st\<rparr>) v = Inr h2"
    and "checkFinalSignature h2 v = Inr h'"
  using assms by (auto simp: rangeOnVerified_step_def Let_def split: sum.splits)

lemma step_levels:
  assumes "step h e = Inr h'"
  shows "levels h' = levels h"
proof (cases e)
  case Tick
  with assms have "periodicUpdate h = Inr h'" by (simp add: step_def)
  from periodicUpdate_frame [OF this] show ?thesis by (rule sends_fields)
next
  case (Verified v st)
  with assms have "rangeOnVerified_step h v st = Inr h'" by (simp add: step_def)
  then obtain h2 where c: "checkCompletedLevel ((logf h (LogNewVerified v))\<lparr>store := st\<rparr>) v = Inr h2"
    and f: "checkFinalSignature h2 v = Inr h'"
    by (rule rangeOnVerified_step_split)
  from frame_fields(1) [OF checkCompletedLevel_frame [OF c]]
  have "levels h2 = levels h" by (simp add: logf_def)
  moreover from checkFinalSignature_cases [OF f] have "levels h' = levels h2" by auto
  ultimately show ?thesis by simp
next
  case (Arrives p)
  with assms have "h' = NewPacket h p" by (simp add: step_def)
  with NewPacket_frame [of h p] have "h' = h\<lparr>proc := proc h', logs := logs h'\<rparr>" by simp
  then show ?thesis by (rule packet_fields)
next
  case CallStart
  with assms have "Start h = Inr h'" by (simp add: step_def)
  from Start_frame [OF this] show ?thesis by (rule start_fields)
next
  case CallStop
  with assms have "Stop h = Inr h'" by (simp add: step_def)
  from Stop_result [OF this] show ?thesis by simp
qed

lemma run_levels: "run h evs = Inr h' \<Longrightarrow> levels h' = levels h"
proof (induction evs arbitrary: h)
  case Nil
  then show ?case by simp
next
  case (Cons e evs)
  then obtain h1 where s: "step h e = Inr h1" and r: "run h1 evs = Inr h'"
    by (auto split: sum.splits)
  from Cons.IH [OF r] step_levels [OF s] show ?case by simp
qed

section \<open>Claims about the aggregator\<close>

text \<open>
  C9. Neither \<^verbatim>\<open>periodicUpdate\<close> nor \<^verbatim>\<open>checkCompletedLevel\<close> changes a level stored in
  \<^verbatim>\<open>h.levels\<close>: they work on copies. The slice of levels, with every field of every
  level (\<^verbatim>\<open>pos\<close>, \<^verbatim>\<open>sent\<close>, \<^verbatim>\<open>finished\<close>, \<^verbatim>\<open>completed\<close>, \<^verbatim>\<open>currentBestSize\<close>), is the
  same after a tick, after the actor, and after any run of ticks, verified signatures,
  packets and calls of \<^verbatim>\<open>Start\<close> and \<^verbatim>\<open>Stop\<close>.
\<close>

theorem levels_never_mutated:
  "(periodicUpdate h = Inr h' \<longrightarrow> levels h' = levels h) \<and>
   (checkCompletedLevel h s = Inr h' \<longrightarrow> levels h' = levels h) \<and>
   (run h evs = Inr h' \<longrightarrow> levels h' = levels h)"
proof (intro conjI impI)
  assume "periodicUpdate h = Inr h'"
  from periodicUpdate_frame [OF this] show "levels h' = levels h" by (rule sends_fields)
next
  assume "checkCompletedLevel h s = Inr h'"
  from checkCompletedLevel_frame [OF this] show "levels h' = levels h" by (rule frame_fields)
next
  assume "run h evs = Inr h'"
  then show "levels h' = levels h" by (rule run_levels)
qed

theorem levels_never_mutated_witness:
  "(\<exists>h'. periodicUpdate ex_handel = Inr h' \<and> levels h' = ex_levels \<and>
         map fst (net h') = [[], [], [0]]) \<and>
   (\<exists>h'. checkCompletedLevel ex_handel ex_verified = Inr h' \<and> levels h' = ex_levels) \<and>
   (\<exists>h'. run ex_handel [Tick, Verified ex_verified ex_store, Tick] = Inr h' \<and>
         levels h' = ex_levels \<and> map fst (net h') = [[], [], [0], [], [], [0]])"
proof -
  note defs = periodicUpdate_def ex_handel_def ex_levels_def sendUpdate_def ex_store_def
    PickNextAt_def sendTo_def logf_def ex_ext_def Let_def sig_of_def BitLength_def
    checkCompletedLevel_def updateBestSig_def Cardinality_def ex_verified_def
    step_def rangeOnVerified_step_def checkFinalSignature_def newBest_def chan_send_def
  obtain h1 where a: "periodicUpdate ex_handel = Inr h1" "map fst (net h1) = [[], [], [0]]"
    by (simp add: defs)
  obtain h2 where b: "checkCompletedLevel ex_handel ex_verified = Inr h2"
    by (simp add: defs)
  obtain h3 where c: "run ex_handel [Tick, Verified ex_verified ex_store, Tick] = Inr h3"
    "map fst (net h3) = [[], [], [0], [], [], [0]]"
    by (simp add: defs)
  have l: "levels ex_handel = ex_levels" by (simp add: ex_handel_def)
  from levels_never_mutated [where h = ex_handel and h' = h1] a have "levels h1 = ex_levels" by (simp add: l)
  moreover from levels_never_mutated [where h = ex_handel and h' = h2 and s = ex_verified] b
  have "levels h2 = ex_levels" by (simp add: l)
  moreover from levels_never_mutated [where h = ex_handel and h' = h3
      and evs = "[Tick, Verified ex_verified ex_store, Tick]"] c have "levels h3 = ex_levels"
    by (simp add: l)
  ultimately show ?thesis using a b c by simp
qed

lemma final_inv_checkFinalSignature:
  assumes "final_inv T h" "checkFinalSignature h s = Inr h'"
  shows "final_inv T h'"
proof -
  from checkFinalSignature_cases [OF assms(2)]
  consider "h' = h"
    | sg where "threshold h \<le> Cardinality sg"
        "best h = None \<or> (\<exists>b. best h = Some b \<and> Cardinality b < Cardinality sg)"
        "h' = h\<lparr>best := Some sg, out := (out h)\<lparr>buf := buf (out h) @ [sg]\<rparr>\<rparr>"
    by blast
  then show ?thesis
  proof cases
    case 1
    with assms(1) show ?thesis by simp
  next
    case 2
    have "Cardinality m < Cardinality sg" if m: "m \<in> set (buf (out h))" for m
    proof (cases "best h")
      case None
      with assms(1) m show ?thesis by (simp add: final_inv_def)
    next
      case (Some b)
      with assms(1) m have "Cardinality m \<le> Cardinality b"
        by (simp add: final_inv_def list_all_iff)
      with 2(2) Some show ?thesis by simp
    qed
    then have lt: "list_all (\<lambda>m. Cardinality m < Cardinality sg) (buf (out h))"
      by (simp add: list_all_iff)
    then have le: "list_all (\<lambda>m. Cardinality m \<le> Cardinality sg) (buf (out h))"
      by (auto simp: list_all_iff)
    from assms(1) 2(1) lt le show ?thesis
      unfolding 2(3) final_inv_def
      by (simp add: sorted_wrt_append list_all_iff)
  qed
qed

lemma final_inv_cong:
  assumes "final_inv T h" "threshold h' = threshold h" "best h' = best h"
    "buf (out h') = buf (out h)"
  shows "final_inv T h'"
  using assms by (cases "best h") (simp_all add: final_inv_def)

lemma final_inv_step:
  assumes "final_inv T h" "step h e = Inr h'"
  shows "final_inv T h'"
proof (cases e)
  case Tick
  with assms have "periodicUpdate h = Inr h'" by (simp add: step_def)
  from sends_fields [OF periodicUpdate_frame [OF this]] assms(1) show ?thesis
    by (intro final_inv_cong [of T h h']) simp_all
next
  case (Verified v st)
  with assms have "rangeOnVerified_step h v st = Inr h'" by (simp add: step_def)
  then obtain h2 where c: "checkCompletedLevel ((logf h (LogNewVerified v))\<lparr>store := st\<rparr>) v = Inr h2"
    and f: "checkFinalSignature h2 v = Inr h'"
    by (rule rangeOnVerified_step_split)
  from frame_fields [OF checkCompletedLevel_frame [OF c]] assms(1)
  have "final_inv T h2"
    by (intro final_inv_cong [of T h h2]) (simp_all add: logf_def)
  then show ?thesis using f by (rule final_inv_checkFinalSignature)
next
  case (Arrives p)
  with assms have "h' = NewPacket h p" by (simp add: step_def)
  with NewPacket_frame [of h p] have "h' = h\<lparr>proc := proc h', logs := logs h'\<rparr>" by simp
  from packet_fields [OF this] assms(1) show ?thesis
    by (intro final_inv_cong [of T h h']) simp_all
next
  case CallStart
  with assms have "Start h = Inr h'" by (simp add: step_def)
  from start_fields [OF Start_frame [OF this]] assms(1) show ?thesis
    by (intro final_inv_cong [of T h h']) simp_all
next
  case CallStop
  with assms have "Stop h = Inr h'" by (simp add: step_def)
  from Stop_result [OF this] assms(1) show ?thesis
    by (intro final_inv_cong [of T h h']) simp_all
qed

lemma final_inv_run:
  "final_inv T h \<Longrightarrow> run h evs = Inr h' \<Longrightarrow> final_inv T h'"
proof (induction evs arbitrary: h)
  case Nil
  then show ?case by simp
next
  case (Cons e evs)
  from Cons.prems(2) obtain h1 where s: "step h e = Inr h1" and r: "run h1 evs = Inr h'"
    by (auto split: sum.splits)
  from Cons.IH [OF final_inv_step [OF Cons.prems(1) s] r] show ?case .
qed

text \<open>
  C1. A call of \<^verbatim>\<open>checkFinalSignature\<close> that returns either leaves the aggregator as it
  was, or sends the full signature of the store on the output channel and makes it
  \<^verbatim>\<open>best\<close>; it sends only when the cardinality of the full signature is at least the
  threshold and either \<^verbatim>\<open>best\<close> was nil or the cardinality is strictly above the one of
  \<^verbatim>\<open>best\<close>. In every run from an aggregator whose \<^verbatim>\<open>best\<close> is nil and whose output
  channel is empty, as \<^verbatim>\<open>NewHandel\<close> builds it, every value sent on the output channel
  has a cardinality of at least the threshold, and the values were sent in strictly
  increasing cardinality.
\<close>

theorem final_signatures_monotone:
  assumes "best h0 = None" "buf (out h0) = []" "run h0 evs = Inr h"
  shows "(\<forall>m \<in> set (buf (out h)). threshold h0 \<le> Cardinality m) \<and>
         sorted_wrt (\<lambda>a b. Cardinality a < Cardinality b) (buf (out h)) \<and>
         (\<forall>h1 s h2. checkFinalSignature h1 s = Inr h2 \<longrightarrow>
            h2 = h1 \<or>
            (\<exists>sg. FullSignature (store h1) = Some sg \<and> threshold h1 \<le> Cardinality sg \<and>
                  (best h1 = None \<or> (\<exists>b. best h1 = Some b \<and> Cardinality b < Cardinality sg)) \<and>
                  h2 = h1\<lparr>best := Some sg, out := (out h1)\<lparr>buf := buf (out h1) @ [sg]\<rparr>\<rparr>))"
proof -
  from assms(1,2) have "final_inv (threshold h0) h0" by (simp add: final_inv_def)
  from final_inv_run [OF this assms(3)] have "final_inv (threshold h0) h" .
  then have a: "\<forall>m \<in> set (buf (out h)). threshold h0 \<le> Cardinality m"
    and b: "sorted_wrt (\<lambda>a b. Cardinality a < Cardinality b) (buf (out h))"
    by (simp_all add: final_inv_def list_all_iff)
  have c: "h2 = h1 \<or>
            (\<exists>sg. FullSignature (store h1) = Some sg \<and> threshold h1 \<le> Cardinality sg \<and>
                  (best h1 = None \<or> (\<exists>b. best h1 = Some b \<and> Cardinality b < Cardinality sg)) \<and>
                  h2 = h1\<lparr>best := Some sg, out := (out h1)\<lparr>buf := buf (out h1) @ [sg]\<rparr>\<rparr>)"
    if "checkFinalSignature h1 s = Inr h2" for h1 s h2
    using checkFinalSignature_cases [OF that] by blast
  from a b c show ?thesis by blast
qed

theorem final_signatures_monotone_witness:
  "best ex_handel = None \<and> buf (out ex_handel) = [] \<and>
   (\<exists>h. run ex_handel
           [Verified ex_verified ex_store2, Verified ex_verified ex_store, Tick,
            Verified ex_verified ex_store, Verified ex_verified ex_store5,
            Verified ex_verified ex_store]
         = Inr h \<and>
        map Cardinality (buf (out h)) = [4, 5] \<and>
        (\<forall>m \<in> set (buf (out h)). threshold ex_handel \<le> Cardinality m) \<and>
        sorted_wrt (\<lambda>a b. Cardinality a < Cardinality b) (buf (out h)))"
proof -
  note defs = periodicUpdate_def ex_handel_def ex_levels_def sendUpdate_def ex_store_def
    PickNextAt_def sendTo_def logf_def ex_ext_def Let_def sig_of_def BitLength_def
    checkCompletedLevel_def updateBestSig_def Cardinality_def ex_verified_def
    step_def rangeOnVerified_step_def checkFinalSignature_def newBest_def chan_send_def
    ex_store5_def ex_store2_def
  have i: "best ex_handel = None" "buf (out ex_handel) = []"
    by (simp_all add: ex_handel_def)
  obtain h where r: "run ex_handel
           [Verified ex_verified ex_store2, Verified ex_verified ex_store, Tick,
            Verified ex_verified ex_store, Verified ex_verified ex_store5,
            Verified ex_verified ex_store] = Inr h"
    and c: "map Cardinality (buf (out h)) = [4, 5]"
    by (simp add: defs)
  from final_signatures_monotone [OF i r] i r c show ?thesis by simp
qed

lemma stopped_step:
  assumes "done_h h" "closed (out h)" "step h e = Inr h'"
  shows "done_h h' \<and> out h' = out h \<and> Incoming (proc h') = Incoming (proc h)"
proof (cases e)
  case Tick
  with assms have "periodicUpdate h = Inr h'" by (simp add: step_def)
  from sends_fields [OF periodicUpdate_frame [OF this]] assms(1) show ?thesis by simp
next
  case (Verified v st)
  with assms have "rangeOnVerified_step h v st = Inr h'" by (simp add: step_def)
  then obtain h2 where c: "checkCompletedLevel ((logf h (LogNewVerified v))\<lparr>store := st\<rparr>) v = Inr h2"
    and f: "checkFinalSignature h2 v = Inr h'"
    by (rule rangeOnVerified_step_split)
  from frame_fields [OF checkCompletedLevel_frame [OF c]] assms(1)
  have h2: "done_h h2" "out h2 = out h" "proc h2 = proc h" by (simp_all add: logf_def)
  from checkFinalSignature_cases [OF f] h2(1) have "h' = h2" by blast
  with h2 show ?thesis by simp
next
  case (Arrives p)
  with assms have "h' = h" by (simp add: step_def NewPacket_def)
  with assms(1) show ?thesis by simp
next
  case CallStart
  with assms have "Start h = Inr h'" by (simp add: step_def)
  from start_fields [OF Start_frame [OF this]] assms(1) show ?thesis by simp
next
  case CallStop
  with assms have "Stop h = Inr h'" by (simp add: step_def)
  from Stop_result [OF this] assms(2) show ?thesis by simp
qed

lemma stopped_run:
  "done_h h \<Longrightarrow> closed (out h) \<Longrightarrow> run h evs = Inr h' \<Longrightarrow>
     done_h h' \<and> out h' = out h \<and> Incoming (proc h') = Incoming (proc h)"
proof (induction evs arbitrary: h)
  case Nil
  then show ?case by simp
next
  case (Cons e evs)
  from Cons.prems(3) obtain h1 where s: "step h e = Inr h1" and r: "run h1 evs = Inr h'"
    by (auto split: sum.splits)
  from stopped_step [OF Cons.prems(1,2) s]
  have h1: "done_h h1" "out h1 = out h" "Incoming (proc h1) = Incoming (proc h)" by simp_all
  from Cons.IH [OF h1(1) _ r] Cons.prems(2) h1 show ?case by simp
qed

text \<open>
  C5, as the code has it. \<^verbatim>\<open>Stop\<close> is not idempotent: a second call closes the closed
  output channel, which panics. The counterexample is the concrete aggregator, stopped
  twice.
\<close>

theorem Stop_twice_panics:
  "Stop ex_handel = Inr ex_stopped \<and> Stop ex_stopped = Inl CloseOfClosedChannel"
  by (simp add: Stop_def chan_close_def ex_stopped_def ex_handel_def Let_def)

text \<open>
  C5, amended. A call of \<^verbatim>\<open>Stop\<close> that returns (the output channel was open) stops the
  ticker and the pipeline, sets \<^verbatim>\<open>done\<close> and closes the output channel without sending
  on it. From then on a packet that arrives is dropped, leaving the aggregator as it
  was, and in every run that continues nothing more is sent on the output channel and
  nothing is pushed to the verification queue. A second call of \<^verbatim>\<open>Stop\<close> panics.
\<close>

theorem Stop_once:
  assumes "Stop h = Inr h1"
  shows "done_h h1 \<and> closed (out h1) \<and> \<not> ticker h1 \<and> procStopped (proc h1) \<and>
         buf (out h1) = buf (out h) \<and>
         Stop h1 = Inl CloseOfClosedChannel \<and>
         (\<forall>p. NewPacket h1 p = h1) \<and>
         (\<forall>evs h2. run h1 evs = Inr h2 \<longrightarrow>
            buf (out h2) = buf (out h1) \<and> Incoming (proc h2) = Incoming (proc h1))"
proof -
  from Stop_result [OF assms]
  have h1: "h1 = h\<lparr>ticker := False, proc := (proc h)\<lparr>procStopped := True\<rparr>, done_h := True,
                   out := (out h)\<lparr>closed := True\<rparr>\<rparr>"
    by simp
  have d: "done_h h1" "closed (out h1)" "\<not> ticker h1" "procStopped (proc h1)"
    "buf (out h1) = buf (out h)"
    by (simp_all add: h1)
  have s: "Stop h1 = Inl CloseOfClosedChannel"
    using d(2) by (simp add: Stop_def chan_close_def Let_def)
  have p: "NewPacket h1 p = h1" for p
    using d(1) by (simp add: NewPacket_def)
  have r: "buf (out h2) = buf (out h1) \<and> Incoming (proc h2) = Incoming (proc h1)"
    if "run h1 evs = Inr h2" for evs h2
    using stopped_run [OF d(1,2) that] by simp
  from d s p r show ?thesis by blast
qed

theorem Stop_once_witness:
  "Stop ex_handel = Inr ex_stopped \<and> done_h ex_stopped \<and> closed (out ex_stopped) \<and>
   Stop ex_stopped = Inl CloseOfClosedChannel \<and>
   NewPacket ex_stopped ex_packet = ex_stopped \<and>
   Incoming (proc (NewPacket ex_handel ex_packet)) =
     [\<lparr>origin = 2, level = 3, ms = \<lparr>BitSet = [True, True, False, False], Signature = []\<rparr>\<rparr>] \<and>
   (\<exists>h2. run ex_stopped [Arrives ex_packet, Verified ex_verified ex_store, Tick] = Inr h2 \<and>
         buf (out h2) = [] \<and> Incoming (proc h2) = [])"
proof -
  note defs = periodicUpdate_def ex_handel_def ex_levels_def sendUpdate_def ex_store_def
    PickNextAt_def sendTo_def logf_def ex_ext_def Let_def sig_of_def BitLength_def
    checkCompletedLevel_def updateBestSig_def Cardinality_def ex_verified_def
    step_def rangeOnVerified_step_def checkFinalSignature_def newBest_def chan_send_def
    ex_stopped_def NewPacket_def ex_packet_def parsePacket_def
  have s: "Stop ex_handel = Inr ex_stopped"
    by (simp add: Stop_def chan_close_def ex_stopped_def ex_handel_def Let_def)
  have q: "Incoming (proc (NewPacket ex_handel ex_packet)) =
     [\<lparr>origin = 2, level = 3, ms = \<lparr>BitSet = [True, True, False, False], Signature = []\<rparr>\<rparr>]"
    by (simp add: defs)
  obtain h2 where r: "run ex_stopped [Arrives ex_packet, Verified ex_verified ex_store, Tick] = Inr h2"
    by (simp add: defs)
  have e: "buf (out ex_stopped) = []" "Incoming (proc ex_stopped) = []"
    by (simp_all add: ex_stopped_def)
  from Stop_once [OF s] r e have "buf (out h2) = [] \<and> Incoming (proc h2) = []" by metis
  with Stop_once [OF s] s q r show ?thesis by simp
qed

text \<open>
  C7. \<^verbatim>\<open>startNextLevel\<close>. When \<^verbatim>\<open>currLevel\<close> is at least the number of levels, the call
  only logs that the protocol is finished: nothing else of the aggregator changes and
  nothing is sent. Otherwise it calls \<^verbatim>\<open>sendBestUpTo(currLevel)\<close> and, when that returns,
  increments \<^verbatim>\<open>currLevel\<close> by one (and logs the passage); the increment does not wrap
  around the byte when there are at most 255 levels.
\<close>

theorem startNextLevel_spec:
  "(int (length (levels h)) \<le> uint (currLevel h) \<longrightarrow>
      startNextLevel h = Inr (h\<lparr>logs := logs h @ [LogProtocolFinished (currLevel h)]\<rparr>)) \<and>
   (uint (currLevel h) < int (length (levels h)) \<longrightarrow>
      startNextLevel h =
        (case sendBestUpTo h (uint (currLevel h)) of
           Inl e \<Rightarrow> Inl e
         | Inr h1 \<Rightarrow>
             Inr (h1\<lparr>currLevel := currLevel h + 1,
                     logs := logs h1 @ [LogPassing (currLevel h) (currLevel h + 1)]\<rparr>)) \<and>
      (length (levels h) \<le> 255 \<longrightarrow> unat (currLevel h + 1) = unat (currLevel h) + 1))"
proof (intro conjI impI)
  assume "int (length (levels h)) \<le> uint (currLevel h)"
  then show "startNextLevel h = Inr (h\<lparr>logs := logs h @ [LogProtocolFinished (currLevel h)]\<rparr>)"
    by (simp add: startNextLevel_def logf_def)
next
  assume lt: "uint (currLevel h) < int (length (levels h))"
  show "startNextLevel h =
        (case sendBestUpTo h (uint (currLevel h)) of
           Inl e \<Rightarrow> Inl e
         | Inr h1 \<Rightarrow>
             Inr (h1\<lparr>currLevel := currLevel h + 1,
                     logs := logs h1 @ [LogPassing (currLevel h) (currLevel h + 1)]\<rparr>))"
  proof (cases "sendBestUpTo h (uint (currLevel h))")
    case (Inl e)
    with lt show ?thesis by (simp add: startNextLevel_def)
  next
    case (Inr h1)
    from sends_fields(8) [OF sendBestUpTo_frame [OF Inr]] have "currLevel h1 = currLevel h" .
    with lt Inr show ?thesis by (simp add: startNextLevel_def logf_def Let_def)
  qed
next
  assume lt: "uint (currLevel h) < int (length (levels h))" and len: "length (levels h) \<le> 255"
  from lt have "int (unat (currLevel h)) < int (length (levels h))"
    by (simp only: uint_nat)
  with len have "unat (currLevel h) < 255" by linarith
  then have "unat (currLevel h) + unat (1 :: byte) < 2 ^ LENGTH(8)" by simp
  then show "unat (currLevel h + 1) = unat (currLevel h) + 1"
    by (simp only: unat_add_lem [THEN iffD1] unat_1)
qed

theorem startNextLevel_spec_witness:
  "startNextLevel (ex_handel\<lparr>currLevel := 3\<rparr>) =
     Inr (ex_handel\<lparr>currLevel := 3, logs := [LogProtocolFinished 3]\<rparr>) \<and>
   (\<exists>h1. sendBestUpTo ex_handel 0 = Inr h1 \<and>
      startNextLevel ex_handel =
        Inr (h1\<lparr>currLevel := 1, logs := logs h1 @ [LogPassing 0 1]\<rparr>) \<and>
      map fst (net h1) = [[0, 1, 2, 3]]) \<and>
   unat (currLevel ex_handel + 1) = unat (currLevel ex_handel) + 1"
proof -
  note defs = ex_handel_def ex_levels_def sendUpdate_def ex_store_def
    PickNextAt_def sendTo_def logf_def ex_ext_def Let_def sig_of_def BitLength_def
    sendBestUpTo_def findNextLevel_def findNextLevel_loop.simps eval_nat_numeral
  have up4: "[0..<4] = [0, 1, 2, 3]" by (simp add: upt_rec)
  have a: "int (length (levels (ex_handel\<lparr>currLevel := 3\<rparr>))) \<le> uint (currLevel (ex_handel\<lparr>currLevel := 3\<rparr>))"
    by (simp add: ex_handel_def ex_levels_def)
  have b: "uint (currLevel ex_handel) < int (length (levels ex_handel))"
    "length (levels ex_handel) \<le> 255" "uint (currLevel ex_handel) = 0"
    by (simp_all add: ex_handel_def ex_levels_def)
  obtain h1 where s: "sendBestUpTo ex_handel 0 = Inr h1" "map fst (net h1) = [[0, 1, 2, 3]]"
    by (simp add: defs)
  have c: "currLevel ex_handel = 0" "logs ex_handel = []" by (simp_all add: ex_handel_def)
  from startNextLevel_spec [of "ex_handel\<lparr>currLevel := 3\<rparr>"] a
  have 1: "startNextLevel (ex_handel\<lparr>currLevel := 3\<rparr>) =
     Inr (ex_handel\<lparr>currLevel := 3, logs := [LogProtocolFinished 3]\<rparr>)"
    by (simp add: c)
  from startNextLevel_spec [of ex_handel] b s
  have 2: "startNextLevel ex_handel = Inr (h1\<lparr>currLevel := 1, logs := logs h1 @ [LogPassing 0 1]\<rparr>)"
    "unat (currLevel ex_handel + 1) = unat (currLevel ex_handel) + 1"
    by (simp_all add: c)
  from 1 2 s show ?thesis by simp
qed

section \<open>The next level that has candidates\<close>

lemma findNextLevel_loop_found:
  assumes "lvl \<le> int (length (levels h))" "1 \<le> l" "l \<le> int j" "j \<le> length (levels h)"
    "nodes (levels h ! (j - 1)) \<noteq> []"
    "\<forall>i. l \<le> int i \<and> i < j \<longrightarrow> nodes (levels h ! (i - 1)) = []"
  shows "findNextLevel_loop h lvl l = Inr (int j, None)"
  using assms
proof (induction "nat (int j - l)" arbitrary: l)
  case 0
  then have l: "l = int j" by simp
  with "0.prems" have "nat (l - 1) = j - 1" "0 \<le> l - 1" "l - 1 < int (length (levels h))"
    by simp_all
  with "0.prems" l show ?case
    by (subst findNextLevel_loop.simps) simp
next
  case (Suc k)
  then have lt: "l < int j" by simp
  with Suc.prems have i: "nat (l - 1) = nat l - 1" "0 \<le> l - 1" "l - 1 < int (length (levels h))"
    by simp_all
  from lt Suc.prems have "nodes (levels h ! (nat l - 1)) = []"
    by (simp add: nat_less_iff)
  with i Suc.prems(1) have "findNextLevel_loop h lvl l = findNextLevel_loop h lvl (l + 1)"
    by (subst findNextLevel_loop.simps) simp
  moreover have "findNextLevel_loop h lvl (l + 1) = Inr (int j, None)"
  proof (rule Suc.hyps(1))
    show "k = nat (int j - (l + 1))" using Suc.hyps(2) by simp
    show "\<forall>i. l + 1 \<le> int i \<and> i < j \<longrightarrow> nodes (levels h ! (i - 1)) = []"
      using Suc.prems(6) by simp
  qed (use Suc.prems lt in simp_all)
  ultimately show ?case by simp
qed

lemma findNextLevel_loop_exhausted:
  assumes "lvl \<le> int (length (levels h))" "1 \<le> l" "l \<le> int (length (levels h)) + 1"
    "\<forall>i. l \<le> int i \<and> i \<le> length (levels h) \<longrightarrow> nodes (levels h ! (i - 1)) = []"
  shows "findNextLevel_loop h lvl l = Inl IndexOutOfRange"
  using assms
proof (induction "nat (int (length (levels h)) + 1 - l)" arbitrary: l)
  case 0
  then have "l = int (length (levels h)) + 1" by simp
  with "0.prems"(1) show ?case
    by (subst findNextLevel_loop.simps) simp
next
  case (Suc k)
  then have lt: "l \<le> int (length (levels h))" by simp
  with Suc.prems have i: "nat (l - 1) = nat l - 1" "0 \<le> l - 1" "l - 1 < int (length (levels h))"
    by simp_all
  from lt Suc.prems have "nodes (levels h ! (nat l - 1)) = []"
    by (simp add: nat_le_iff)
  with i Suc.prems(1) have "findNextLevel_loop h lvl l = findNextLevel_loop h lvl (l + 1)"
    by (subst findNextLevel_loop.simps) simp
  moreover have "findNextLevel_loop h lvl (l + 1) = Inl IndexOutOfRange"
  proof (rule Suc.hyps(1))
    show "k = nat (int (length (levels h)) + 1 - (l + 1))" using Suc.hyps(2) by simp
    show "\<forall>i. l + 1 \<le> int i \<and> i \<le> length (levels h) \<longrightarrow> nodes (levels h ! (i - 1)) = []"
      using Suc.prems(4) by simp
  qed (use Suc.prems lt in simp_all)
  ultimately show ?case by simp
qed

text \<open>
  When no level above \<open>lvl\<close> has a candidate, the loop of \<^verbatim>\<open>findNextLevel\<close> does not reach
  its \<^verbatim>\<open>return 0, errors.New(...)\<close>: its guard reads \<^verbatim>\<open>lvl\<close>, which does not change, and
  the loop runs off the end of the slice.
\<close>

lemma sendBestUpTo_exhausted:
  assumes "0 \<le> lvl" "lvl < int (length (levels h))"
    "\<forall>i. lvl < int i \<and> i \<le> length (levels h) \<longrightarrow> nodes (levels h ! (i - 1)) = []"
  shows "sendBestUpTo h lvl = Inl IndexOutOfRange"
proof -
  have "findNextLevel_loop h lvl (lvl + 1) = Inl IndexOutOfRange"
    using assms by (intro findNextLevel_loop_exhausted) simp_all
  with assms(1,2) show ?thesis
    by (simp add: sendBestUpTo_def findNextLevel_def)
qed

lemma sendBestUpTo_exhausted_example:
  "sendBestUpTo ex_handel_top_empty 1 = Inl IndexOutOfRange"
  by (simp add: sendBestUpTo_def findNextLevel_def findNextLevel_loop.simps
        ex_handel_top_empty_def ex_handel_def)

lemma sendUpdate_sends:
  assumes "started l" "\<not> finished l" "Level_ok l" "0 \<le> count"
    "Combined (store h) (word_of_int (id_l l) - 1) = Some sp"
  shows "sendUpdate h l count =
           Inr (sendTo
                  (logf h (LogSending (id_l l) (BitLength sp)
                     (map (\<lambda>i. nodes l ! ((nat (pos l) + i) mod length (nodes l)))
                        [0..<nat (min count (int (length (nodes l))))])))
                  (id_l l) sp
                  (map (\<lambda>i. nodes l ! ((nat (pos l) + i) mod length (nodes l)))
                     [0..<nat (min count (int (length (nodes l))))]))"
proof (cases "nodes l = []")
  case True
  with assms(4) have "PickNextAt l count =
      Inr ([], True, if 0 \<le> sint (sent l) then l\<lparr>finished := True\<rparr> else l)"
    by (intro PickNextAt_empty)
  with assms True show ?thesis by (simp add: sendUpdate_def)
next
  case False
  with assms(3) have p: "0 \<le> pos l" "pos l < int (length (nodes l))"
    by (auto simp: Level_ok_def)
  from PickNextAt_result [OF assms(4) p] assms(1,2,5) show ?thesis
    by (simp add: sendUpdate_def)
qed

lemma replicate_two: "replicate 2 x = [x, x]"
  by (simp add: numeral_2_eq_2)

lemma ex_level3_pick:
  "PickNextAt \<lparr>id_l = 3, nodes = [0, 1, 2, 3], started = True, completed = False,
        finished = False, pos = 0, sent = 0, currentBestSize = 0\<rparr> 10 =
     Inr ([0, 1, 2, 3], True,
          \<lparr>id_l = 3, nodes = [0, 1, 2, 3], started = True, completed = False,
             finished = True, pos = 0, sent = 4, currentBestSize = 0\<rparr>)"
proof -
  have up4: "[0..<4] = [0, 1, 2, 3]" by (simp add: upt_rec)
  show ?thesis
    using PickNextAt_result [of 10 "\<lparr>id_l = 3, nodes = [0, 1, 2, 3], started = True,
        completed = False, finished = False, pos = 0, sent = 0, currentBestSize = 0\<rparr>"]
    by (simp add: up4)
qed

text \<open>
  C3, as the code has it. From level 0 of the concrete aggregator the next level with
  candidates is level 3, with four candidates, and \<^verbatim>\<open>CandidateCount\<close> is 10. The call
  sends to the four candidates, and what it sends is \<^verbatim>\<open>Combined(2)\<close>, of three
  contributors, not \<^verbatim>\<open>Combined(0)\<close>, of one.
\<close>

theorem sendBestUpTo_sends_Combined_of_target:
  "map_sum (\<lambda>e. e) net (sendBestUpTo ex_handel 0) =
     Inr [([0, 1, 2, 3], \<lparr>Origin = 4, Level = 3, MultiSig = [1, 1, 1]\<rparr>)] \<and>
   map_option (MarshalBinary ex_ext) (Combined (store ex_handel) 0) = Some (Inr [1]) \<and>
   map_option (MarshalBinary ex_ext) (Combined (store ex_handel) 2) = Some (Inr [1, 1, 1]) \<and>
   CandidateCount (c_h ex_handel) = 10"
  by (simp add: ex_handel_def ex_levels_def sendUpdate_def ex_store_def
        ex_level3_pick sendTo_def logf_def ex_ext_def Let_def sig_of_def BitLength_def
        sendBestUpTo_def findNextLevel_def findNextLevel_loop.simps replicate_two)

text \<open>
  C3, amended. For \<open>lvl\<close> in \<open>[0, L)\<close> with a level above it that has candidates,
  \<^verbatim>\<open>sendBestUpTo(lvl)\<close> is \<^verbatim>\<open>sendUpdate\<close>, with the count \<^verbatim>\<open>CandidateCount\<close>, on a copy of
  the smallest level \<open>j > lvl\<close> whose candidate list is not empty. When that level is
  started and not finished, it sends \<^verbatim>\<open>Combined(id - 1)\<close> for the \<^verbatim>\<open>id\<close> of that level
  to the next \<open>min CandidateCount |nodes|\<close> candidates of that level from its cursor, and
  panics when \<^verbatim>\<open>Combined\<close> returns nil; when the level is not started or is finished
  it sends nothing.
\<close>

theorem sendBestUpTo_spec:
  assumes "0 \<le> lvl" "lvl < int (length (levels h))"
    "lvl < int j" "j \<le> length (levels h)"
    "nodes (levels h ! (j - 1)) \<noteq> []"
    "\<forall>i. lvl < int i \<and> i < j \<longrightarrow> nodes (levels h ! (i - 1)) = []"
  shows "sendBestUpTo h lvl = sendUpdate h (levels h ! (j - 1)) (CandidateCount (c_h h)) \<and>
         (\<not> started (levels h ! (j - 1)) \<or> finished (levels h ! (j - 1)) \<longrightarrow>
            sendBestUpTo h lvl = Inr h) \<and>
         (started (levels h ! (j - 1)) \<and> \<not> finished (levels h ! (j - 1)) \<and>
          Combined (store h) (word_of_int (id_l (levels h ! (j - 1))) - 1) = None \<longrightarrow>
            sendBestUpTo h lvl = Inl ThisShouldNotHappenAtAll) \<and>
         (\<forall>sp. started (levels h ! (j - 1)) \<and> \<not> finished (levels h ! (j - 1)) \<and>
               Level_ok (levels h ! (j - 1)) \<and> 0 \<le> CandidateCount (c_h h) \<and>
               Combined (store h) (word_of_int (id_l (levels h ! (j - 1))) - 1) = Some sp \<longrightarrow>
            sendBestUpTo h lvl =
              Inr (sendTo
                     (logf h (LogSending (id_l (levels h ! (j - 1))) (BitLength sp)
                        (map (\<lambda>i. nodes (levels h ! (j - 1)) !
                                 ((nat (pos (levels h ! (j - 1))) + i) mod
                                    length (nodes (levels h ! (j - 1)))))
                           [0..<nat (min (CandidateCount (c_h h))
                                       (int (length (nodes (levels h ! (j - 1))))))])))
                     (id_l (levels h ! (j - 1))) sp
                     (map (\<lambda>i. nodes (levels h ! (j - 1)) !
                              ((nat (pos (levels h ! (j - 1))) + i) mod
                                 length (nodes (levels h ! (j - 1)))))
                        [0..<nat (min (CandidateCount (c_h h))
                                    (int (length (nodes (levels h ! (j - 1))))))])))"
proof -
  let ?l = "levels h ! (j - 1)"
  have "findNextLevel_loop h lvl (lvl + 1) = Inr (int j, None)"
    using assms by (intro findNextLevel_loop_found) simp_all
  moreover from assms(1,3,4) have "nat (int j - 1) = j - 1" "0 \<le> int j - 1"
    "int j - 1 < int (length (levels h))"
    by simp_all
  ultimately have a: "sendBestUpTo h lvl = sendUpdate h ?l (CandidateCount (c_h h))"
    using assms(1,2) by (simp add: sendBestUpTo_def findNextLevel_def)
  have b: "sendUpdate h ?l (CandidateCount (c_h h)) = Inr h"
    if "\<not> started ?l \<or> finished ?l"
    using that by (auto simp: sendUpdate_def)
  have c: "sendUpdate h ?l (CandidateCount (c_h h)) = Inl ThisShouldNotHappenAtAll"
    if "started ?l \<and> \<not> finished ?l \<and> Combined (store h) (word_of_int (id_l ?l) - 1) = None"
    using that by (simp add: sendUpdate_def)
  have d: "sendUpdate h ?l (CandidateCount (c_h h)) =
              Inr (sendTo
                     (logf h (LogSending (id_l ?l) (BitLength sp)
                        (map (\<lambda>i. nodes ?l ! ((nat (pos ?l) + i) mod length (nodes ?l)))
                           [0..<nat (min (CandidateCount (c_h h)) (int (length (nodes ?l))))])))
                     (id_l ?l) sp
                     (map (\<lambda>i. nodes ?l ! ((nat (pos ?l) + i) mod length (nodes ?l)))
                        [0..<nat (min (CandidateCount (c_h h)) (int (length (nodes ?l))))]))"
    if "started ?l \<and> \<not> finished ?l \<and> Level_ok ?l \<and> 0 \<le> CandidateCount (c_h h) \<and>
        Combined (store h) (word_of_int (id_l ?l) - 1) = Some sp" for sp
    using that by (intro sendUpdate_sends) simp_all
  from b c d show ?thesis unfolding a by blast
qed

theorem sendBestUpTo_spec_witness:
  "(0::int) \<le> 0 \<and> 0 < int (length (levels ex_handel)) \<and> 0 < int (3::nat) \<and>
   3 \<le> length (levels ex_handel) \<and> nodes (levels ex_handel ! (3 - 1)) \<noteq> [] \<and>
   nodes (levels ex_handel ! 0) = [] \<and> nodes (levels ex_handel ! 1) = [] \<and>
   started (levels ex_handel ! 2) \<and> \<not> finished (levels ex_handel ! 2) \<and>
   Level_ok (levels ex_handel ! 2) \<and> 0 \<le> CandidateCount (c_h ex_handel) \<and>
   Combined (store ex_handel) (word_of_int (id_l (levels ex_handel ! 2)) - 1)
     = Some (sig_of [True, True, True]) \<and>
   sendBestUpTo ex_handel 0 =
     Inr (ex_handel\<lparr>net := [([0, 1, 2, 3], \<lparr>Origin = 4, Level = 3, MultiSig = [1, 1, 1]\<rparr>)],
                    logs := [LogSending 3 3 [0, 1, 2, 3]]\<rparr>) \<and>
   sendBestUpTo (ex_handel\<lparr>levels := (levels ex_handel)[2 := (levels ex_handel ! 2)\<lparr>finished := True\<rparr>]\<rparr>) 0
     = Inr (ex_handel\<lparr>levels := (levels ex_handel)[2 := (levels ex_handel ! 2)\<lparr>finished := True\<rparr>]\<rparr>) \<and>
   sendBestUpTo ex_handel_gap 0 = Inl ThisShouldNotHappenAtAll"
proof -
  note defs = ex_handel_def ex_levels_def ex_store_def ex_ext_def sig_of_def Level_ok_def
    ex_handel_gap_def ex_store_gap_def
  have emp: "\<forall>i. (0::int) < int i \<and> i < 3 \<longrightarrow> nodes (levels ex_handel ! (i - 1)) = []"
  proof (intro allI impI)
    fix i :: nat
    assume "(0::int) < int i \<and> i < 3"
    then have "i = 1 \<or> i = 2" by auto
    then show "nodes (levels ex_handel ! (i - 1)) = []"
      by (auto simp: defs)
  qed
  have up4: "[0..<4] = [0, 1, 2, 3]" by (simp add: upt_rec)
  have p: "(0::int) \<le> 0" "0 < int (length (levels ex_handel))" "0 < int (3::nat)"
    "3 \<le> length (levels ex_handel)" "nodes (levels ex_handel ! (3 - 1)) \<noteq> []"
    by (simp_all add: defs)
  note T1 = sendBestUpTo_spec [OF p emp]
  have 1: "sendBestUpTo ex_handel 0 =
     Inr (ex_handel\<lparr>net := [([0, 1, 2, 3], \<lparr>Origin = 4, Level = 3, MultiSig = [1, 1, 1]\<rparr>)],
                    logs := [LogSending 3 3 [0, 1, 2, 3]]\<rparr>)"
    using T1 [THEN conjunct2, THEN conjunct2, THEN conjunct2, rule_format,
              of "sig_of [True, True, True]"]
    by (simp add: defs up4 sendTo_def logf_def BitLength_def replicate_two)
  let ?h2 = "ex_handel\<lparr>levels := (levels ex_handel)[2 := (levels ex_handel ! 2)\<lparr>finished := True\<rparr>]\<rparr>"
  have emp2: "\<forall>i. (0::int) < int i \<and> i < 3 \<longrightarrow> nodes (levels ?h2 ! (i - 1)) = []"
  proof (intro allI impI)
    fix i :: nat
    assume "(0::int) < int i \<and> i < 3"
    then have "i = 1 \<or> i = 2" by auto
    then show "nodes (levels ?h2 ! (i - 1)) = []"
      by (auto simp: defs)
  qed
  have p2: "(0::int) \<le> 0" "0 < int (length (levels ?h2))" "0 < int (3::nat)"
    "3 \<le> length (levels ?h2)" "nodes (levels ?h2 ! (3 - 1)) \<noteq> []"
    by (simp_all add: defs)
  note T2 = sendBestUpTo_spec [OF p2 emp2]
  have 2: "sendBestUpTo ?h2 0 = Inr ?h2"
    using T2 [THEN conjunct2, THEN conjunct1] by (simp add: defs)
  have emp3: "\<forall>i. (0::int) < int i \<and> i < 3 \<longrightarrow> nodes (levels ex_handel_gap ! (i - 1)) = []"
  proof (intro allI impI)
    fix i :: nat
    assume "(0::int) < int i \<and> i < 3"
    then have "i = 1 \<or> i = 2" by auto
    then show "nodes (levels ex_handel_gap ! (i - 1)) = []"
      by (auto simp: defs)
  qed
  have p3: "(0::int) \<le> 0" "0 < int (length (levels ex_handel_gap))" "0 < int (3::nat)"
    "3 \<le> length (levels ex_handel_gap)" "nodes (levels ex_handel_gap ! (3 - 1)) \<noteq> []"
    by (simp_all add: defs)
  note T3 = sendBestUpTo_spec [OF p3 emp3]
  have 3: "sendBestUpTo ex_handel_gap 0 = Inl ThisShouldNotHappenAtAll"
    using T3 [THEN conjunct2, THEN conjunct2, THEN conjunct1] by (simp add: defs)
  from 1 2 3 show ?thesis by (simp add: defs replicate_two)
qed

lemma periodicUpdate_loop_null:
  assumes "l \<in> set ls" "started l" "\<not> finished l"
    "Combined (store h) (word_of_int (id_l l) - 1) = None"
  shows "\<exists>p. periodicUpdate_loop h ls = Inl p"
  using assms
proof (induction ls arbitrary: h)
  case Nil
  then show ?case by simp
next
  case (Cons x ls)
  show ?case
  proof (cases "sendUpdate h x 1")
    case (Inl e)
    then show ?thesis by simp
  next
    case (Inr h1)
    have sl: "sendUpdate h l 1 = Inl ThisShouldNotHappenAtAll"
      using Cons.prems(2,3,4) by (simp add: sendUpdate_def)
    with Inr have "l \<noteq> x" by auto
    with Cons.prems(1) have "l \<in> set ls" by simp
    moreover from sends_fields(7) [OF sendUpdate_frame [OF Inr]] Cons.prems(4)
    have "Combined (store h1) (word_of_int (id_l l) - 1) = None" by simp
    ultimately have "\<exists>p. periodicUpdate_loop h1 ls = Inl p"
      using Cons.prems(2,3) by (intro Cons.IH)
    with Inr show ?thesis by simp
  qed
qed

text \<open>
  C8, as the code has it. In the concrete aggregator with a store in which level 1 is
  missing, \<^verbatim>\<open>Combined(1)\<close> is nil for the send of level 2, and the tick panics.
\<close>

theorem periodicUpdate_null_panics:
  "Combined (store ex_handel_gap) 1 = None \<and>
   periodicUpdate ex_handel_gap = Inl ThisShouldNotHappenAtAll"
  by (simp add: periodicUpdate_def ex_handel_gap_def ex_handel_def ex_levels_def
        sendUpdate_def ex_store_gap_def ex_store_def PickNextAt_def sendTo_def logf_def
        ex_ext_def Let_def sig_of_def BitLength_def)

text \<open>
  C8, amended. \<^verbatim>\<open>sendUpdate\<close> does not take nil for "not ready": for a level that is
  started and not finished, a nil \<^verbatim>\<open>Combined(level-1)\<close> makes it panic, and a tick over
  levels that hold such a level panics and halts the aggregator. A level that is not
  started, or is finished, is skipped without a send.
\<close>

theorem sendUpdate_null_combined:
  "(started l \<and> \<not> finished l \<and> Combined (store h) (word_of_int (id_l l) - 1) = None \<longrightarrow>
      sendUpdate h l count = Inl ThisShouldNotHappenAtAll \<and>
      (l \<in> set (levels h) \<longrightarrow> (\<exists>p. periodicUpdate h = Inl p))) \<and>
   (\<not> started l \<or> finished l \<longrightarrow> sendUpdate h l count = Inr h)"
proof (intro conjI impI)
  assume a: "started l \<and> \<not> finished l \<and> Combined (store h) (word_of_int (id_l l) - 1) = None"
  then show "sendUpdate h l count = Inl ThisShouldNotHappenAtAll"
    by (simp add: sendUpdate_def)
  assume "l \<in> set (levels h)"
  with a show "\<exists>p. periodicUpdate h = Inl p"
    unfolding periodicUpdate_def by (intro periodicUpdate_loop_null [of l]) simp_all
next
  assume "\<not> started l \<or> finished l"
  then show "sendUpdate h l count = Inr h" by (auto simp: sendUpdate_def)
qed

theorem sendUpdate_null_combined_witness:
  "started (ex_levels ! 1) \<and> \<not> finished (ex_levels ! 1) \<and>
   Combined (store ex_handel_gap) (word_of_int (id_l (ex_levels ! 1)) - 1) = None \<and>
   ex_levels ! 1 \<in> set (levels ex_handel_gap) \<and>
   sendUpdate ex_handel_gap (ex_levels ! 1) 1 = Inl ThisShouldNotHappenAtAll \<and>
   (\<exists>p. periodicUpdate ex_handel_gap = Inl p) \<and>
   finished (ex_level\<lparr>finished := True\<rparr>) \<and>
   sendUpdate ex_handel_gap (ex_level\<lparr>finished := True\<rparr>) 1 = Inr ex_handel_gap"
proof -
  have a: "started (ex_levels ! 1) \<and> \<not> finished (ex_levels ! 1) \<and>
     Combined (store ex_handel_gap) (word_of_int (id_l (ex_levels ! 1)) - 1) = None"
    by (simp add: ex_levels_def ex_handel_gap_def ex_store_gap_def ex_store_def)
  have b: "ex_levels ! 1 \<in> set (levels ex_handel_gap)"
    by (simp add: ex_levels_def ex_handel_gap_def ex_handel_def)
  have c: "\<not> started (ex_level\<lparr>finished := True\<rparr>) \<or> finished (ex_level\<lparr>finished := True\<rparr>)"
    by simp
  from sendUpdate_null_combined [of "ex_levels ! 1" ex_handel_gap 1] a b
  have 1: "sendUpdate ex_handel_gap (ex_levels ! 1) 1 = Inl ThisShouldNotHappenAtAll"
    "\<exists>p. periodicUpdate ex_handel_gap = Inl p"
    by blast+
  from sendUpdate_null_combined [of "ex_level\<lparr>finished := True\<rparr>" ex_handel_gap 1] c
  have 2: "sendUpdate ex_handel_gap (ex_level\<lparr>finished := True\<rparr>) 1 = Inr ex_handel_gap"
    by blast
  from a b 1 2 show ?thesis by simp
qed

section \<open>Packets\<close>

lemma NewPacket_rejects:
  assumes "sint (word_of_int (Size (reg h)) :: int32) \<le> sint (Origin p) \<or>
           uint (Level p) < 1 \<or> log2 (ext h) (Size (reg h)) < uint (Level p)"
  shows "Incoming (proc (NewPacket h p)) = Incoming (proc h)"
  using assms by (auto simp: NewPacket_def parsePacket_def logf_def Let_def)

lemma NewPacket_pushes:
  assumes "\<not> done_h h" "sint (Origin p) < sint (word_of_int (Size (reg h)) :: int32)"
    "1 \<le> uint (Level p)" "uint (Level p) \<le> log2 (ext h) (Size (reg h))"
    "Unmarshal (ext h) (MultiSig p) = Inr m"
  shows "Incoming (proc (NewPacket h p)) =
           Incoming (proc h) @ [\<lparr>origin = Origin p, level = Level p, ms = m\<rparr>]"
  using assms by (simp add: NewPacket_def parsePacket_def logf_def Let_def)

text \<open>
  C2. \<^verbatim>\<open>parsePacket\<close> compares the origin with the size of the registry only from above:
  \<^verbatim>\<open>p.Origin >= int32(h.reg.Size())\<close>. An origin is an \<^verbatim>\<open>int32\<close>, and a negative one
  passes. In the concrete aggregator, of a registry of 5, the packet of origin -1 for
  level 3 is pushed on the verification queue.
\<close>

theorem NewPacket_negative_origin:
  "sint (Origin ex_packet_neg) = - 1 \<and> Size (reg ex_handel) = 5 \<and>
   uint (Level ex_packet_neg) = 3 \<and> log2 (ext ex_handel) (Size (reg ex_handel)) = 3 \<and>
   Incoming (proc ex_handel) = [] \<and>
   Incoming (proc (NewPacket ex_handel ex_packet_neg)) =
     [\<lparr>origin = - 1, level = 3, ms = \<lparr>BitSet = [True, True, False, False], Signature = []\<rparr>\<rparr>]"
  by (simp add: NewPacket_def parsePacket_def logf_def Let_def ex_packet_neg_def
        ex_handel_def ex_ext_def)

section \<open>A level with no candidate\<close>

text \<open>
  C10. On a level with no candidate \<^verbatim>\<open>PickNextAt\<close> returns no peer, with
  \<^verbatim>\<open>ok = true\<close>, and sets \<^verbatim>\<open>finished\<close> on its receiver. The receiver is the copy that
  \<^verbatim>\<open>sendUpdate\<close> was given, so the stored level is not finished after the pick and is
  not excluded: in the concrete aggregator two ticks send for the levels 1, 2, 3 and
  again 1, 2, 3, the levels 1 and 2 to no peer, and no stored level is finished.
\<close>

theorem empty_level_sent_every_tick:
  "nodes (ex_levels ! 0) = [] \<and>
   PickNextAt (ex_levels ! 0) 1 = Inr ([], True, (ex_levels ! 0)\<lparr>finished := True\<rparr>) \<and>
   map_sum (\<lambda>e. e) (\<lambda>h. map (\<lambda>(ids, p). (uint (Level p), ids)) (net h))
       (run ex_handel [Tick, Tick])
     = Inr [(1, []), (2, []), (3, [0]), (1, []), (2, []), (3, [0])] \<and>
   map_sum (\<lambda>e. e) (\<lambda>h. map finished (levels h)) (run ex_handel [Tick, Tick])
     = Inr [False, False, False]"
  by (simp add: periodicUpdate_def ex_handel_def ex_levels_def sendUpdate_def ex_store_def
        PickNextAt_def sendTo_def logf_def ex_ext_def Let_def sig_of_def BitLength_def
        step_def)

section \<open>The aggregator at construction\<close>

lemma NewHandel_initial:
  assumes "NewHandel x conf r ident part thr st = Inr h"
  shows "best h = None \<and> buf (out h) = [] \<and> \<not> closed (out h) \<and> \<not> done_h h \<and>
         currLevel h = 0 \<and> threshold h = thr"
  using assms by (auto simp: NewHandel_def split: sum.splits)

lemma createLevels_loop_levels:
  assumes "createLevels_loop part r is = Inr ls"
  shows "length ls = length is \<and>
         (\<forall>k < length is.
            id_l (ls ! k) = int (is ! k) + 1 \<and>
            nodes (ls ! k) = part (int (is ! k) + 1) (Size r + 1) \<and>
            started (ls ! k) \<and> \<not> finished (ls ! k) \<and> \<not> completed (ls ! k) \<and>
            Level_ok (ls ! k))"
  using assms
proof (induction "is" arbitrary: ls)
  case Nil
  then show ?case by simp
next
  case (Cons i rest)
  from Cons.prems obtain l ls' where
    l: "NewLevel (int i + 1) (part (int i + 1) (Size r + 1)) = Inr l"
    and r: "createLevels_loop part r rest = Inr ls'" and ls: "ls = l # ls'"
    by (auto split: sum.splits)
  from l have l': "id_l l = int i + 1" "nodes l = part (int i + 1) (Size r + 1)"
    "started l" "\<not> finished l" "\<not> completed l" "Level_ok l"
    by (auto simp: NewLevel_def Level_ok_def split: if_splits)
  from Cons.IH [OF r] l' show ?case
    unfolding ls by (auto simp: nth_Cons split: nat.splits)
qed

text \<open>
  The levels that \<^verbatim>\<open>createLevels\<close> builds: \<open>log2 N\<close> of them, the one at index \<open>k\<close> with
  the \<^verbatim>\<open>id\<close> \<open>k + 1\<close>, started, not finished and not completed.
\<close>

lemma createLevels_levels:
  assumes "createLevels x r part = Inr ls"
  shows "int (length ls) = log2 x (Size r) \<and>
         (\<forall>k < length ls.
            id_l (ls ! k) = int k + 1 \<and> started (ls ! k) \<and> \<not> finished (ls ! k) \<and>
            \<not> completed (ls ! k) \<and> Level_ok (ls ! k))"
proof -
  from assms have n: "0 \<le> log2 x (Size r)"
    and c: "createLevels_loop part r [0..<nat (log2 x (Size r))] = Inr ls"
    by (auto simp: createLevels_def split: if_splits)
  from createLevels_loop_levels [OF c] n show ?thesis by simp
qed

end
